theory Spec2Isabelle
  imports Complex_Main "HOL-Library.AList" "HOL-Library.Log_Nat"
begin

section \<open>Text, character classes and the regular expressions of the fetcher\<close>

text \<open>
  A Python \<open>str\<close> is a sequence of Unicode code points; it is modelled as a list of
  natural numbers, one per code point.
\<close>

type_synonym str = "nat list"

definition ascii :: "string \<Rightarrow> str" where
  "ascii s = map of_char s"

text \<open>
  \<^verbatim>\<open>\d\<close> in a \<open>str\<close> pattern matches every Unicode decimal digit (category Nd). Each
  block of ten digits starts at its zero; these are the zeros of Unicode 14.
\<close>

definition decimal_zeros :: "nat list" where
  "decimal_zeros =
    [48, 1632, 1776, 1984, 2406, 2534, 2662, 2790, 2918, 3046, 3174, 3302, 3430, 3558,
     3664, 3792, 3872, 4160, 4240, 6112, 6160, 6470, 6608, 6784, 6800, 6992, 7088, 7232,
     7248, 42528, 43216, 43264, 43472, 43504, 43600, 44016, 65296, 66720, 68912, 69734,
     69872, 69942, 70096, 70384, 70736, 70864, 71248, 71360, 71472, 71904, 72016, 72784,
     73040, 73120, 92768, 92864, 93008, 120782, 120792, 120802, 120812, 120822, 123200,
     123632, 125264, 130032]"

fun decimal_in :: "nat list \<Rightarrow> nat \<Rightarrow> nat option" where
  "decimal_in [] c = None"
| "decimal_in (z # zs) c = (if z \<le> c \<and> c < z + 10 then Some (c - z) else decimal_in zs c)"

definition decimal :: "nat \<Rightarrow> nat option" where
  "decimal c = decimal_in decimal_zeros c"

definition isdecimal :: "nat \<Rightarrow> bool" where
  "isdecimal c \<longleftrightarrow> decimal c \<noteq> None"

text \<open>\<^verbatim>\<open>\s\<close> and \<open>str.strip()\<close> share one table: the code points with \<open>str.isspace()\<close>.\<close>

definition isspace :: "nat \<Rightarrow> bool" where
  "isspace c \<longleftrightarrow>
     (9 \<le> c \<and> c \<le> 13) \<or> (28 \<le> c \<and> c \<le> 32) \<or> c = 133 \<or> c = 160 \<or> c = 5760 \<or>
     (8192 \<le> c \<and> c \<le> 8202) \<or> c = 8232 \<or> c = 8233 \<or> c = 8239 \<or> c = 8287 \<or> c = 12288"

definition strip :: "str \<Rightarrow> str" where
  "strip s = rev (dropWhile isspace (rev (dropWhile isspace s)))"

datatype cls = Digit | Space | OneOf str | Dot

fun cls_matches :: "cls \<Rightarrow> nat \<Rightarrow> bool" where
  "cls_matches Digit c = isdecimal c"
| "cls_matches Space c = isspace c"
| "cls_matches (OneOf cs) c = (c \<in> set cs)"
| "cls_matches Dot c = (c \<noteq> 10)"

text \<open>
  The patterns of the fetcher repeat single characters only, so \<open>Star\<close> and \<open>Plus\<close>
  take a character class. \<open>Group n r\<close> is the n-th parenthesis of the pattern.
\<close>

datatype re =
    Eps
  | Class cls
  | Lit str
  | Star cls
  | Plus cls
  | Opt re
  | Alt re re
  | Seq re re
  | Group nat re

type_synonym caps = "nat \<rightharpoonup> str"

text \<open>
  \<open>greedy k s\<close>: what is left of \<open>s\<close> after a run of characters of class \<open>k\<close>, the
  longest run first, as a greedy quantifier tries them.
\<close>

fun greedy :: "cls \<Rightarrow> str \<Rightarrow> str list" where
  "greedy k [] = [[]]"
| "greedy k (x # xs) = (if cls_matches k x then greedy k xs @ [x # xs] else [x # xs])"

text \<open>
  \<open>ms r s c\<close>: every way \<open>r\<close> matches a prefix of \<open>s\<close>, as the rest of the text and
  the groups captured, in the order a backtracking matcher tries them. The first element
  is the match Python reports.
\<close>

fun ms :: "re \<Rightarrow> str \<Rightarrow> caps \<Rightarrow> (str \<times> caps) list" where
  "ms Eps s c = [(s, c)]"
| "ms (Class k) s c =
     (case s of [] \<Rightarrow> [] | x # xs \<Rightarrow> if cls_matches k x then [(xs, c)] else [])"
| "ms (Lit l) s c = (if take (length l) s = l then [(drop (length l) s, c)] else [])"
| "ms (Star k) s c = map (\<lambda>s'. (s', c)) (greedy k s)"
| "ms (Plus k) s c =
     (case s of [] \<Rightarrow> []
      | x # xs \<Rightarrow> if cls_matches k x then map (\<lambda>s'. (s', c)) (greedy k xs) else [])"
| "ms (Opt r) s c = ms r s c @ [(s, c)]"
| "ms (Alt a b) s c = ms a s c @ ms b s c"
| "ms (Seq a b) s c = concat (map (\<lambda>(s', c'). ms b s' c') (ms a s c))"
| "ms (Group n r) s c =
     map (\<lambda>(s', c'). (s', c'(n \<mapsto> take (length s - length s') s))) (ms r s c)"

definition match_at :: "re \<Rightarrow> str \<Rightarrow> (str \<times> caps) option" where
  "match_at r s = (case ms r s Map.empty of [] \<Rightarrow> None | m # _ \<Rightarrow> Some m)"

definition seqs :: "re list \<Rightarrow> re" where
  "seqs rs = foldr Seq rs Eps"

definition alts :: "str list \<Rightarrow> re" where
  "alts ls = foldr (\<lambda>l r. Alt (Lit l) r) (butlast ls) (Lit (last ls))"

text \<open>A group that took no part in the match is the empty string in \<open>findall\<close>.\<close>

definition groups :: "nat list \<Rightarrow> caps \<Rightarrow> str list" where
  "groups ns c = map (\<lambda>i. case c i of None \<Rightarrow> [] | Some t \<Rightarrow> t) ns"

text \<open>
  \<open>re.findall\<close> for a pattern with two or more groups, numbered \<open>ns\<close>: the tuples
  of groups of the matches found from left to right, each search starting where the last
  match ended.
\<close>

function findall :: "re \<Rightarrow> nat list \<Rightarrow> str \<Rightarrow> str list list" where
  "findall r n [] = (case match_at r [] of None \<Rightarrow> [] | Some (s', c) \<Rightarrow> [groups n c])"
| "findall r n (x # xs) =
     (case match_at r (x # xs) of
        None \<Rightarrow> findall r n xs
      | Some (s', c) \<Rightarrow>
          groups n c # (if length s' < Suc (length xs) then findall r n s' else findall r n xs))"
  by pat_completeness auto
termination
  by (relation "measure (\<lambda>(r, n, s). length s)") auto

text \<open>
  \<open>re.search\<close>: the groups of the match at the leftmost position that has one, or
  \<open>None\<close>.
\<close>

fun re_search :: "re \<Rightarrow> str \<Rightarrow> caps option" where
  "re_search r [] = map_option snd (match_at r [])"
| "re_search r (x # xs) =
     (case match_at r (x # xs) of Some (s', c) \<Rightarrow> Some c | None \<Rightarrow> re_search r xs)"

definition group :: "caps \<Rightarrow> nat \<Rightarrow> str" where
  "group c i = (case c i of None \<Rightarrow> [] | Some t \<Rightarrow> t)"

text \<open>\<open>sub in s\<close> for strings.\<close>

fun contains :: "str \<Rightarrow> str \<Rightarrow> bool" where
  "contains sub [] = (sub = [])"
| "contains sub (x # xs) = (take (length sub) (x # xs) = sub \<or> contains sub xs)"

section \<open>Values shared by the modules\<close>

text \<open>
  A naive \<open>datetime\<close> is its seven fields. \<open>datetime.now()\<close> is an input of every
  function that reads the clock.
\<close>

record datetime =
  year :: nat
  month :: nat
  day :: nat
  hour :: nat
  minute :: nat
  second :: nat
  microsecond :: nat

text \<open>
  The exceptions the fetcher can meet inside its \<open>try\<close> blocks: the request fails
  (\<open>session.get\<close>, \<open>raise_for_status\<close> or the HTML parser raise, with the message of
  the exception), \<open>float\<close> or \<open>int\<close> rejects a string, an \<open>int\<close> is too large to
  become a \<open>float\<close>, or a division is by zero.
\<close>

datatype error = RequestFailed str | ValueError str | OverflowError str | ZeroDivisionError str

text \<open>
  The messages of these exceptions, without the quoted string or the count of digits that
  some of them carry.
\<close>

definition float_rejects :: str where
  "float_rejects = ascii ''could not convert string to float''"

definition int_rejects :: str where
  "int_rejects = ascii ''invalid literal for int() with base 10''"

definition int_limit_exceeded :: str where
  "int_limit_exceeded = ascii ''Exceeds the limit (4300 digits) for integer string conversion''"

definition int_too_large :: str where
  "int_too_large = ascii ''int too large to convert to float''"

definition division_by_zero :: str where
  "division_by_zero = ascii ''float division by zero''"

text \<open>
  \<open>sys.maxsize\<close> of a 64-bit CPython: no \<open>str\<close> and no list is longer.
\<close>

definition maxsize :: nat where
  "maxsize = 2 ^ 63 - 1"

text \<open>What the request and BeautifulSoup hand to a fetch function.\<close>

datatype 'a response = Raises str | Ok 'a

text \<open>
  A fetch function returns its data or, from its \<open>except\<close> branch, the dictionary
  \<open>{'timestamp': datetime.now(), 'error': str(e)}\<close>.
\<close>

datatype 'a facet = Failure datetime error | Data 'a

subsection \<open>Floating point\<close>

text \<open>
  A Python \<open>float\<close> is a number of the IEEE 754 binary64 format: a rational with a
  significand of 53 binary digits and an exponent between -1074 and 971, an infinity, or
  not a number. A finite value is modelled by the rational it stands for; the sign of a
  zero is not kept (the fetcher builds no negative number).
\<close>

datatype double = Finite rat | PlusInf | MinusInf | NaN

text \<open>The integer nearest to \<open>x\<close>; of the two nearest when \<open>x\<close> lies half way, the even one.\<close>

definition round_half_even :: "rat \<Rightarrow> int" where
  "round_half_even x =
     (let f = \<lfloor>x\<rfloor>; r = x - of_int f
      in if r < 1 / 2 then f
         else if 1 / 2 < r then f + 1
         else if even f then f else f + 1)"

text \<open>
  The smallest positive value of the format is \<open>2 ^ -1074\<close>, and \<open>2 ^ 1024\<close> is the
  first power of two beyond its finite values.
\<close>

definition denorm :: nat where
  "denorm = 1074"

definition emax :: nat where
  "emax = 1024"

text \<open>
  The value of the format nearest to a rational \<open>q\<close> that is not negative, ties going to
  the even significand: what a correctly rounded operation returns for the exact result
  \<open>q\<close>. With \<open>x\<close> the number \<open>q\<close> in units of \<open>2 ^ -1074\<close> and
  \<open>floorlog 2 n\<close> the number of binary digits of \<open>n\<close>, the last place kept is worth
  \<open>2 ^ p\<close> units: 1 unit up to 53 binary digits (the subnormal values and the first
  normal ones), and what leaves 53 binary digits beyond. A result of \<open>2 ^ 1024\<close> or more
  is the infinity.
\<close>

definition rnd_nonneg :: "rat \<Rightarrow> double" where
  "rnd_nonneg q =
     (let x = q * 2 ^ denorm;
          p = floorlog 2 (nat \<lfloor>x\<rfloor>) - 53;
          v = of_int (round_half_even (x / 2 ^ p)) * 2 ^ p / 2 ^ denorm
      in if 2 ^ emax \<le> v then PlusInf else Finite v)"

fun fneg :: "double \<Rightarrow> double" where
  "fneg (Finite v) = Finite (- v)"
| "fneg PlusInf = MinusInf"
| "fneg MinusInf = PlusInf"
| "fneg NaN = NaN"

definition rnd :: "rat \<Rightarrow> double" where
  "rnd q = (if 0 \<le> q then rnd_nonneg q else fneg (rnd_nonneg (- q)))"

text \<open>\<open>x + y\<close> on two floats.\<close>

fun fadd :: "double \<Rightarrow> double \<Rightarrow> double" where
  "fadd (Finite a) (Finite b) = rnd (a + b)"
| "fadd NaN y = NaN"
| "fadd x NaN = NaN"
| "fadd PlusInf MinusInf = NaN"
| "fadd MinusInf PlusInf = NaN"
| "fadd PlusInf y = PlusInf"
| "fadd x PlusInf = PlusInf"
| "fadd MinusInf y = MinusInf"
| "fadd x MinusInf = MinusInf"

text \<open>
  \<open>x / d\<close> for a float \<open>x\<close> and a divisor \<open>d\<close> that is finite and greater than 0:
  the two divisions of the fetcher divide by 2 and by a count that is at least 1.
\<close>

fun fdiv :: "double \<Rightarrow> rat \<Rightarrow> double" where
  "fdiv (Finite a) d = rnd (a / d)"
| "fdiv x d = x"

text \<open>
  \<open>x / n\<close> for a float \<open>x\<close> and an \<open>int\<close> \<open>n\<close> that is not negative: \<open>n\<close> becomes
  the nearest float first, which raises \<open>OverflowError\<close> when there is no finite one.
\<close>

definition truediv_int :: "double \<Rightarrow> nat \<Rightarrow> error + double" where
  "truediv_int x n =
     (if n = 0 then Inl (ZeroDivisionError division_by_zero)
      else (case rnd (of_nat n) of
              Finite d \<Rightarrow> Inr (fdiv x d)
            | _ \<Rightarrow> Inl (OverflowError int_too_large)))"

text \<open>
  \<open>sum(xs)\<close> for a list of floats: the additions from left to right, starting from 0,
  each rounded (the summation of CPython 3.11; later versions carry the rounding errors
  along, and return the same sum whenever no addition rounds).
\<close>

definition py_sum :: "double list \<Rightarrow> double" where
  "py_sum xs = foldl fadd (Finite 0) xs"

text \<open>\<open>math.isfinite\<close>.\<close>

fun is_finite :: "double \<Rightarrow> bool" where
  "is_finite (Finite v) = True"
| "is_finite x = False"

text \<open>The comparisons of Python on floats, and the float 0.\<close>

instantiation double :: "{zero, ord}"
begin

definition zero_double :: double where
  "zero_double = Finite 0"

fun less_eq_double :: "double \<Rightarrow> double \<Rightarrow> bool" where
  "less_eq_double NaN y = False"
| "less_eq_double x NaN = False"
| "less_eq_double MinusInf y = True"
| "less_eq_double x PlusInf = True"
| "less_eq_double (Finite a) (Finite b) = (a \<le> b)"
| "less_eq_double x y = False"

definition less_double :: "double \<Rightarrow> double \<Rightarrow> bool" where
  "less_double x y = (x \<le> y \<and> \<not> y \<le> (x::double))"

instance ..

end

text \<open>
  \<open>float(s)\<close> for the strings the patterns capture: decimal digits, and decimal digits
  around one full stop (U+002E). The result is the float nearest to the number written,
  and the infinity for a number of 2 ^ 1024 or more. \<open>None\<close> is \<open>ValueError\<close>. The
  other spellings \<open>float\<close> accepts (signs, exponents, surrounding blanks) are not
  captured by any pattern of the fetcher.
\<close>

fun digits_value :: "nat \<Rightarrow> str \<Rightarrow> nat option" where
  "digits_value acc [] = Some acc"
| "digits_value acc (c # cs) =
     (case decimal c of None \<Rightarrow> None | Some d \<Rightarrow> digits_value (10 * acc + d) cs)"

definition py_float :: "str \<Rightarrow> double option" where
  "py_float s =
     (let ip = takeWhile isdecimal s; rest = dropWhile isdecimal s
      in case rest of
           [] \<Rightarrow> if ip = [] then None else map_option (\<lambda>n. rnd (of_nat n)) (digits_value 0 ip)
         | c # fp \<Rightarrow>
             if c = 46 \<and> (ip \<noteq> [] \<or> fp \<noteq> []) then
               (case (digits_value 0 ip, digits_value 0 fp) of
                  (Some a, Some b) \<Rightarrow> Some (rnd (of_nat a + of_nat b / 10 ^ length fp))
                | _ \<Rightarrow> None)
             else None)"

section \<open>data_fetcher.py: rainfall\<close>

text \<open>
  The three patterns of \<open>fetch_rainfall_data\<close>, in the order of the source. The code
  points are those of the characters in the source:
  U+4E2D U+897F U+6771 U+5357 U+5317 in the class of the first two patterns, U+5340 for
  the optional district suffix, U+81F3 between the bounds, U+6BEB U+7C73 for the unit.
\<close>

definition region_name :: re where
  "region_name =
     Group 1 (seqs [Plus (OneOf [20013, 35199, 26481, 21335, 21271]), Star Space,
                    Opt (Class (OneOf [21312]))])"

definition unit_mm :: "re list" where
  "unit_mm = [Star Space, Lit [27627], Star Space, Lit [31859]]"

definition pattern1 :: re where
  "pattern1 = seqs ([region_name, Star Space, Group 2 (Plus Digit)] @ unit_mm)"

definition pattern2 :: re where
  "pattern2 =
     seqs ([region_name, Star Space, Group 2 (Plus Digit), Star Space, Lit [33267],
            Star Space, Group 3 (Plus Digit)] @ unit_mm)"

text \<open>
  The named districts of the third pattern: U+4E5D U+9F8D U+57CE, U+8475 U+9752,
  U+8343 U+7063, U+7063 U+4ED4, U+96E2 U+5CF6 U+5340, U+897F U+8CA2, U+6C99 U+7530,
  U+5927 U+57D4, U+5C6F U+9580, U+5143 U+6717.
\<close>

definition named_districts :: "str list" where
  "named_districts =
     [[20061, 40845, 22478], [33909, 38738], [33603, 28771], [28771, 20180],
      [38626, 23798, 21312], [35199, 36002], [27801, 30000], [22823, 22484],
      [23663, 38272], [20803, 26391]]"

definition pattern3 :: re where
  "pattern3 =
     seqs ([Group 1 (alts named_districts), Star Space, Group 2 (Plus Digit), Star Space,
            Opt (Lit [33267]), Star Space, Opt (Group 3 (Plus Digit))] @ unit_mm)"

definition patterns :: "(re \<times> nat list) list" where
  "patterns = [(pattern1, [1, 2]), (pattern2, [1, 2, 3]), (pattern3, [1, 2, 3])]"

text \<open>
  One entry of \<open>rainfall_data['regions']\<close>, and the dictionary \<open>rainfall_data\<close> itself.
  The report's own key \<open>'average_rainfall'\<close> is the field \<open>overall_average_rainfall\<close>,
  its \<open>'timestamp'\<close> the field \<open>rainfall_timestamp\<close>. A Python dictionary keeps its keys
  in insertion order and an assignment to a key already there replaces the value in
  place: this is \<open>AList.update\<close> on an association list.
\<close>

record reading =
  min_rainfall :: double
  max_rainfall :: double
  average_rainfall :: double

record rainfall_report =
  rainfall_timestamp :: datetime
  regions :: "(str \<times> reading) list"
  total_regions :: nat
  overall_average_rainfall :: double

text \<open>
  The dictionary built from one match: the two branches on \<open>len(match)\<close>. The loop
  builds it for tuples of two or three only; the last equation is never used by it.
\<close>

fun reading_of :: "str list \<Rightarrow> error + reading" where
  "reading_of [region, rainfall] =
     (case py_float rainfall of
        None \<Rightarrow> Inl (ValueError float_rejects)
      | Some v \<Rightarrow> Inr \<lparr>min_rainfall = v, max_rainfall = v, average_rainfall = v\<rparr>)"
| "reading_of [region, min_rain, max_rain] =
     (if max_rain \<noteq> [] then
        (case (py_float min_rain, py_float max_rain) of
           (Some lo, Some hi) \<Rightarrow>
             Inr \<lparr>min_rainfall = lo, max_rainfall = hi,
                  average_rainfall = fdiv (fadd lo hi) 2\<rparr>
         | _ \<Rightarrow> Inl (ValueError float_rejects))
      else
        (case py_float min_rain of
           None \<Rightarrow> Inl (ValueError float_rejects)
         | Some lo \<Rightarrow> Inr \<lparr>min_rainfall = lo, max_rainfall = lo, average_rainfall = lo\<rparr>))"
| "reading_of m = Inl (ValueError float_rejects)"

text \<open>
  The body of the inner loop: a match of length two or three is stored under the stripped
  region name, any other match is passed over.
\<close>

definition store_match :: "(str \<times> reading) list \<Rightarrow> str list \<Rightarrow> error + (str \<times> reading) list" where
  "store_match regs m =
     (if length m = 2 \<or> length m = 3 then
        (case reading_of m of
           Inl e \<Rightarrow> Inl e
         | Inr v \<Rightarrow> Inr (AList.update (strip (hd m)) v regs))
      else Inr regs)"

fun store_matches :: "(str \<times> reading) list \<Rightarrow> str list list \<Rightarrow> error + (str \<times> reading) list" where
  "store_matches regs [] = Inr regs"
| "store_matches regs (m # rest) =
     (case store_match regs m of Inl e \<Rightarrow> Inl e | Inr regs' \<Rightarrow> store_matches regs' rest)"

fun apply_patterns ::
  "(str \<times> reading) list \<Rightarrow> (re \<times> nat list) list \<Rightarrow> str \<Rightarrow> error + (str \<times> reading) list" where
  "apply_patterns regs [] text_content = Inr regs"
| "apply_patterns regs ((p, ns) # ps) text_content =
     (case store_matches regs (findall p ns text_content) of
        Inl e \<Rightarrow> Inl e
      | Inr regs' \<Rightarrow> apply_patterns regs' ps text_content)"

text \<open>
  With no region the report keeps the two zeros it was created with. Otherwise the average
  is \<open>sum(avg_values) / len(avg_values)\<close> over the values of the dictionary, in its
  order.
\<close>

definition fetch_rainfall_data :: "datetime \<Rightarrow> str response \<Rightarrow> rainfall_report facet" where
  "fetch_rainfall_data now resp =
     (case resp of
        Raises e \<Rightarrow> Failure now (RequestFailed e)
      | Ok text_content \<Rightarrow>
          (case apply_patterns [] patterns text_content of
             Inl e \<Rightarrow> Failure now e
           | Inr regs \<Rightarrow>
               if regs \<noteq> [] then
                 (case truediv_int (py_sum (map (\<lambda>(k, v). average_rainfall v) regs))
                         (length regs) of
                    Inl e \<Rightarrow> Failure now e
                  | Inr avg \<Rightarrow>
                      Data \<lparr>rainfall_timestamp = now,
                            regions = regs,
                            total_regions = length regs,
                            overall_average_rainfall = avg\<rparr>)
               else
                 Data \<lparr>rainfall_timestamp = now,
                       regions = regs,
                       total_regions = 0,
                       overall_average_rainfall = 0\<rparr>))"

text \<open>
  All the matches in the order the loops visit them: pattern by pattern, and within a
  pattern from left to right in the text.
\<close>

definition all_matches :: "str \<Rightarrow> str list list" where
  "all_matches text_content = concat (map (\<lambda>(p, ns). findall p ns text_content) patterns)"

text \<open>
  The last match, in the order of \<open>all_matches\<close>, whose stripped region name is \<open>k\<close>.
\<close>

definition last_match_for :: "str \<Rightarrow> str list list \<Rightarrow> str list option" where
  "last_match_for k mms =
     (case filter (\<lambda>m. strip (hd m) = k) mms of
        [] \<Rightarrow> None
      | m # rest \<Rightarrow> Some (last (m # rest)))"

definition stored_for :: "str \<Rightarrow> str list list \<Rightarrow> reading option \<Rightarrow> reading option" where
  "stored_for k mms dflt =
     (case last_match_for k mms of
        None \<Rightarrow> dflt
      | Some m \<Rightarrow> (case reading_of m of Inl e \<Rightarrow> None | Inr v \<Rightarrow> Some v))"

text \<open>
  The arithmetic mean of the regions' averages, every region with the same weight, and 0
  for no region: the report average as the specification words it, computed without
  rounding from the numbers the finite averages stand for.
\<close>

fun exact :: "double \<Rightarrow> rat" where
  "exact (Finite v) = v"
| "exact x = 0"

definition sum_of_regions :: "(str \<rightharpoonup> reading) \<Rightarrow> rat" where
  "sum_of_regions m = (\<Sum>k\<in>dom m. exact (average_rainfall (the (m k))))"

definition mean_of_regions :: "(str \<rightharpoonup> reading) \<Rightarrow> rat" where
  "mean_of_regions m =
     (if dom m = {} then 0 else sum_of_regions m / of_nat (card (dom m)))"

subsection \<open>Concrete pages\<close>

definition t0 :: datetime where
  "t0 = \<lparr>year = 2024, month = 6, day = 1, hour = 12, minute = 0, second = 0, microsecond = 0\<rparr>"

text \<open>
  The district U+4E2D U+897F U+5340 with 1 mm, a blank, the district U+897F U+8CA2 with
  0 to 5 mm: the example of the specification.
\<close>

definition example_text :: str where
  "example_text =
     [20013, 35199, 21312, 49, 27627, 31859, 32, 35199, 36002, 48, 33267, 53, 27627, 31859]"

definition example_report :: rainfall_report where
  "example_report =
     \<lparr>rainfall_timestamp = t0,
      regions =
        [([20013, 35199, 21312],
          \<lparr>min_rainfall = Finite 1, max_rainfall = Finite 1, average_rainfall = Finite 1\<rparr>),
         ([35199, 36002],
          \<lparr>min_rainfall = Finite 0, max_rainfall = Finite 5, average_rainfall = Finite (5 / 2)\<rparr>)],
      total_regions = 2,
      overall_average_rainfall = Finite (7 / 4)\<rparr>"

text \<open>The district U+4E2D U+897F U+5340 with 0 mm.\<close>

definition dry_text :: str where
  "dry_text = [20013, 35199, 21312, 48, 27627, 31859]"

definition dry_report :: rainfall_report where
  "dry_report =
     \<lparr>rainfall_timestamp = t0,
      regions = [([20013, 35199, 21312],
                  \<lparr>min_rainfall = Finite 0, max_rainfall = Finite 0, average_rainfall = Finite 0\<rparr>)],
      total_regions = 1,
      overall_average_rainfall = Finite 0\<rparr>"

text \<open>The district U+897F U+8CA2 with the range 5 to 0 mm.\<close>

definition descending_text :: str where
  "descending_text = [35199, 36002, 53, 33267, 48, 27627, 31859]"

definition descending_report :: rainfall_report where
  "descending_report =
     \<lparr>rainfall_timestamp = t0,
      regions = [([35199, 36002],
                  \<lparr>min_rainfall = Finite 5, max_rainfall = Finite 0,
                   average_rainfall = Finite (5 / 2)\<rparr>)],
      total_regions = 1,
      overall_average_rainfall = Finite (5 / 2)\<rparr>"

text \<open>
  The district U+4E2D U+897F U+5340 twice: first with the range 2 to 4 mm, then, after a
  blank, with 1 mm.
\<close>

definition priority_text :: str where
  "priority_text =
     [20013, 35199, 21312, 50, 33267, 52, 27627, 31859, 32,
      20013, 35199, 21312, 49, 27627, 31859]"

definition priority_report :: rainfall_report where
  "priority_report =
     \<lparr>rainfall_timestamp = t0,
      regions = [([20013, 35199, 21312],
                  \<lparr>min_rainfall = Finite 2, max_rainfall = Finite 4, average_rainfall = Finite 3\<rparr>)],
      total_regions = 1,
      overall_average_rainfall = Finite 3\<rparr>"

text \<open>
  Three districts, U+4E2D U+897F U+5340, U+6771 U+5340 and U+5357 U+5340, with 1 mm, 1 mm
  and 2 mm; \<open>6004799503160661 / 2 ^ 52\<close> is the float nearest to \<open>4 / 3\<close>.
\<close>

definition thirds_text :: str where
  "thirds_text =
     [20013, 35199, 21312, 49, 27627, 31859, 32, 26481, 21312, 49, 27627, 31859, 32,
      21335, 21312, 50, 27627, 31859]"

definition thirds_report :: rainfall_report where
  "thirds_report =
     \<lparr>rainfall_timestamp = t0,
      regions =
        [([20013, 35199, 21312],
          \<lparr>min_rainfall = Finite 1, max_rainfall = Finite 1, average_rainfall = Finite 1\<rparr>),
         ([26481, 21312],
          \<lparr>min_rainfall = Finite 1, max_rainfall = Finite 1, average_rainfall = Finite 1\<rparr>),
         ([21335, 21312],
          \<lparr>min_rainfall = Finite 2, max_rainfall = Finite 2, average_rainfall = Finite 2\<rparr>)],
      total_regions = 3,
      overall_average_rainfall = Finite (6004799503160661 / 4503599627370496)\<rparr>"

text \<open>
  The district U+897F U+8CA2 with the range 9007199254740992 to 1 mm: the lower bound is
  \<open>2 ^ 53\<close>, the first float whose successor is 2 further.
\<close>

definition wide_text :: str where
  "wide_text =
     [35199, 36002, 57, 48, 48, 55, 49, 57, 57, 50, 53, 52, 55, 52, 48, 57, 57, 50,
      33267, 49, 27627, 31859]"

definition wide_report :: rainfall_report where
  "wide_report =
     \<lparr>rainfall_timestamp = t0,
      regions = [([35199, 36002],
                  \<lparr>min_rainfall = Finite 9007199254740992, max_rainfall = Finite 1,
                   average_rainfall = Finite 4503599627370496\<rparr>)],
      total_regions = 1,
      overall_average_rainfall = Finite 4503599627370496\<rparr>"

section \<open>data_fetcher.py: the index page\<close>

text \<open>
  What BeautifulSoup gives for the index page: its strings in document order (what
  \<open>find_all(text=...)\<close> filters), \<open>get_text()\<close>, \<open>get_text().lower()\<close>, and the
  \<open>src\<close> attribute of every \<open>img\<close> element that has one, in document order.
\<close>

record index_page =
  strings :: "str list"
  get_text :: str
  get_text_lower :: str
  img_srcs :: "str list"

text \<open>
  \<open>int(s)\<close> for a string of decimal digits. A string of more than 4300 digits is
  refused with \<open>ValueError\<close> (the limit \<open>sys.int_max_str_digits\<close>, counted before
  anything else of the string is looked at), and so is a string that is not a number.
\<close>

definition py_int :: "str \<Rightarrow> error + nat" where
  "py_int s =
     (if 4300 < length (takeWhile isdecimal s) then Inl (ValueError int_limit_exceeded)
      else if s = [] then Inl (ValueError int_rejects)
      else (case digits_value 0 s of
              None \<Rightarrow> Inl (ValueError int_rejects)
            | Some n \<Rightarrow> Inr n))"

subsection \<open>fetch_current_weather\<close>

datatype status = raining | cloudy | sunny | unknown

record weather_data =
  weather_timestamp :: datetime
  temperature :: "double option"
  humidity :: "nat option"
  rainfall_status :: status

text \<open>
  The temperature pattern, digits with an optional full stop and more digits before the
  degree sign U+00B0 and \<open>C\<close>, and the humidity pattern, digits before \<open>%\<close>. The
  patterns that filter the strings are the same without the parentheses; a group does not
  change where a pattern matches.
\<close>

definition temperature_pattern :: re where
  "temperature_pattern =
     seqs [Group 1 (seqs [Plus Digit, Opt (Class (OneOf [46])), Star Digit]), Lit [176, 67]]"

definition humidity_pattern :: re where
  "humidity_pattern = seqs [Group 1 (Plus Digit), Lit [37]]"

text \<open>
  The two loops: the first string with a match decides, and the loop stops there. Every
  string that passed the filter has a match.
\<close>

fun first_temperature :: "str list \<Rightarrow> error + double option" where
  "first_temperature [] = Inr None"
| "first_temperature (t # ts) =
     (case re_search temperature_pattern t of
        None \<Rightarrow> first_temperature ts
      | Some c \<Rightarrow>
          (case py_float (group c 1) of None \<Rightarrow> Inl (ValueError float_rejects) | Some v \<Rightarrow> Inr (Some v)))"

fun first_humidity :: "str list \<Rightarrow> error + nat option" where
  "first_humidity [] = Inr None"
| "first_humidity (t # ts) =
     (case re_search humidity_pattern t of
        None \<Rightarrow> first_humidity ts
      | Some c \<Rightarrow>
          (case py_int (group c 1) of Inl e \<Rightarrow> Inl e | Inr v \<Rightarrow> Inr (Some v)))"

text \<open>
  The keywords of the status: U+96E8, U+9A5F U+96E8, then U+591A U+96F2, then
  U+5929 U+6674.
\<close>

definition classify_status :: "str \<Rightarrow> status" where
  "classify_status weather_text =
     (if contains [38632] weather_text \<or> contains [39519, 38632] weather_text then raining
      else if contains [22810, 38642] weather_text then cloudy
      else if contains [22825, 26228] weather_text then sunny
      else unknown)"

definition fetch_current_weather :: "datetime \<Rightarrow> index_page response \<Rightarrow> weather_data facet" where
  "fetch_current_weather now resp =
     (case resp of
        Raises e \<Rightarrow> Failure now (RequestFailed e)
      | Ok soup \<Rightarrow>
          (case first_temperature
                  (filter (\<lambda>t. re_search temperature_pattern t \<noteq> None) (strings soup)) of
             Inl e \<Rightarrow> Failure now e
           | Inr temp \<Rightarrow>
               (case first_humidity
                       (filter (\<lambda>t. re_search humidity_pattern t \<noteq> None) (strings soup)) of
                  Inl e \<Rightarrow> Failure now e
                | Inr hum \<Rightarrow>
                    Data \<lparr>weather_timestamp = now,
                          temperature = temp,
                          humidity = hum,
                          rainfall_status = classify_status (get_text soup)\<rparr>)))"

subsection \<open>fetch_weather_warnings\<close>

datatype warning = thunderstorm | heavy_rain | strong_wind

datatype level = none | medium | high

record warnings =
  warnings_timestamp :: datetime
  active_warnings :: "warning list"
  warning_level :: level

text \<open>The pattern \<open>warn.*\.png\<close> that selects the \<open>img\<close> elements.\<close>

definition warn_png :: re where
  "warn_png = seqs [Lit (ascii ''warn''), Star Dot, Lit (ascii ''.png'')]"

text \<open>
  The loop over the selected elements. Each branch appends to \<open>active_warnings\<close> and
  assigns \<open>warning_level\<close>.
\<close>

fun scan_icons :: "warning list \<times> level \<Rightarrow> str list \<Rightarrow> warning list \<times> level" where
  "scan_icons (aw, lv) [] = (aw, lv)"
| "scan_icons (aw, lv) (src # rest) =
     (if contains (ascii ''ts'') src then scan_icons (aw @ [thunderstorm], high) rest
      else if contains (ascii ''rain'') src then scan_icons (aw @ [heavy_rain], medium) rest
      else if contains (ascii ''wind'') src then scan_icons (aw @ [strong_wind], medium) rest
      else scan_icons (aw, lv) rest)"

text \<open>
  The two keyword checks on the lowered text: U+96F7 U+66B4 U+8B66 U+544A and
  U+66B4 U+96E8 U+8B66 U+544A.
\<close>

definition keyword_check :: "str \<Rightarrow> warning \<Rightarrow> str \<Rightarrow> warning list \<times> level \<Rightarrow> warning list \<times> level" where
  "keyword_check keyword w text_content st =
     (case st of (aw, lv) \<Rightarrow>
        if contains keyword text_content
        then (if w \<notin> set aw then aw @ [w] else aw, high)
        else (aw, lv))"

definition fetch_weather_warnings :: "datetime \<Rightarrow> index_page response \<Rightarrow> warnings facet" where
  "fetch_weather_warnings now resp =
     (case resp of
        Raises e \<Rightarrow> Failure now (RequestFailed e)
      | Ok soup \<Rightarrow>
          (case keyword_check [26292, 38632, 35686, 21578] heavy_rain (get_text_lower soup)
                  (keyword_check [38647, 26292, 35686, 21578] thunderstorm (get_text_lower soup)
                     (scan_icons ([], none)
                        (filter (\<lambda>src. re_search warn_png src \<noteq> None) (img_srcs soup)))) of
             (aw, lv) \<Rightarrow>
               Data \<lparr>warnings_timestamp = now, active_warnings = aw, warning_level = lv\<rparr>))"

subsection \<open>fetch_all_data\<close>

text \<open>
  \<open>hk_districts\<close>: the approximate centre of each district, latitude and longitude, each
  the float nearest to the decimal written in the source.
\<close>

definition hk_districts :: "(str \<times> double \<times> double) list" where
  "hk_districts =
     [(ascii ''Central & Western'', rnd (222855 / 10000), rnd (1141577 / 10000)),
      (ascii ''Eastern'', rnd (222783 / 10000), rnd (1142367 / 10000)),
      (ascii ''Southern'', rnd (222461 / 10000), rnd (1141628 / 10000)),
      (ascii ''Wan Chai'', rnd (222767 / 10000), rnd (1141759 / 10000)),
      (ascii ''Kowloon City'', rnd (223251 / 10000), rnd (1141944 / 10000)),
      (ascii ''Kwun Tong'', rnd (223127 / 10000), rnd (1142267 / 10000)),
      (ascii ''Sham Shui Po'', rnd (223309 / 10000), rnd (1141639 / 10000)),
      (ascii ''Wong Tai Sin'', rnd (223418 / 10000), rnd (1141946 / 10000)),
      (ascii ''Yau Tsim Mong'', rnd (223093 / 10000), rnd (1141694 / 10000)),
      (ascii ''Islands'', rnd (222587 / 10000), rnd (1139447 / 10000)),
      (ascii ''Kwai Tsing'', rnd (223573 / 10000), rnd (1141378 / 10000)),
      (ascii ''North'', rnd (224964 / 10000), rnd (1141476 / 10000)),
      (ascii ''Sai Kung'', rnd (223816 / 10000), rnd (1142723 / 10000)),
      (ascii ''Sha Tin'', rnd (223817 / 10000), rnd (1141973 / 10000)),
      (ascii ''Tai Po'', rnd (224455 / 10000), rnd (1141645 / 10000)),
      (ascii ''Tsuen Wan'', rnd (223736 / 10000), rnd (1141177 / 10000)),
      (ascii ''Tuen Mun'', rnd (223943 / 10000), rnd (1139766 / 10000)),
      (ascii ''Yuen Long'', rnd (224473 / 10000), rnd (1140305 / 10000))]"

text \<open>
  What one call of \<open>fetch_all_data\<close> receives from outside: the clock at each
  \<open>datetime.now()\<close> and the outcome of each of the three requests. The index page is
  requested twice, once for the weather and once for the warnings.
\<close>

record outside =
  clock_fetch :: datetime
  clock_weather :: datetime
  clock_rainfall :: datetime
  clock_warnings :: datetime
  weather_response :: "index_page response"
  rainfall_response :: "str response"
  warnings_response :: "index_page response"

record all_data =
  fetch_time :: datetime
  current_weather :: "weather_data facet"
  rainfall_data :: "rainfall_report facet"
  weather_warnings :: "warnings facet"
  district_coordinates :: "(str \<times> double \<times> double) list"

definition fetch_all_data :: "outside \<Rightarrow> all_data" where
  "fetch_all_data w =
     \<lparr>fetch_time = clock_fetch w,
      current_weather = fetch_current_weather (clock_weather w) (weather_response w),
      rainfall_data = fetch_rainfall_data (clock_rainfall w) (rainfall_response w),
      weather_warnings = fetch_weather_warnings (clock_warnings w) (warnings_response w),
      district_coordinates = hk_districts\<rparr>"

section \<open>Dates and times\<close>

definition leap :: "nat \<Rightarrow> bool" where
  "leap y \<longleftrightarrow> y mod 4 = 0 \<and> (y mod 100 \<noteq> 0 \<or> y mod 400 = 0)"

definition days_in_month :: "nat \<Rightarrow> nat \<Rightarrow> nat" where
  "days_in_month y m =
     (if m = 2 then (if leap y then 29 else 28)
      else if m = 4 \<or> m = 6 \<or> m = 9 \<or> m = 11 then 30
      else 31)"

text \<open>The values a \<open>datetime\<close> object can have.\<close>

definition valid_datetime :: "datetime \<Rightarrow> bool" where
  "valid_datetime d \<longleftrightarrow>
     1 \<le> year d \<and> year d \<le> 9999 \<and> 1 \<le> month d \<and> month d \<le> 12 \<and>
     1 \<le> day d \<and> day d \<le> days_in_month (year d) (month d) \<and>
     hour d < 24 \<and> minute d < 60 \<and> second d < 60 \<and> microsecond d < 1000000"

text \<open>The order of naive datetimes: the fields compared from the year down.\<close>

fun lex_less :: "nat list \<Rightarrow> nat list \<Rightarrow> bool" where
  "lex_less (x # xs) (y # ys) = (x < y \<or> (x = y \<and> lex_less xs ys))"
| "lex_less xs ys = False"

definition dt_fields :: "datetime \<Rightarrow> nat list" where
  "dt_fields d = [year d, month d, day d, hour d, minute d, second d, microsecond d]"

definition dt_less :: "datetime \<Rightarrow> datetime \<Rightarrow> bool" where
  "dt_less a b = lex_less (dt_fields a) (dt_fields b)"

text \<open>
  \<open>d - timedelta(hours=24)\<close>: the same time of day on the day before. \<open>None\<close> is the
  \<open>OverflowError\<close> of a result before year 1.
\<close>

definition minus_24_hours :: "datetime \<Rightarrow> datetime option" where
  "minus_24_hours d =
     (if 1 < day d then Some (d\<lparr>day := day d - 1\<rparr>)
      else if 1 < month d then
        Some (d\<lparr>month := month d - 1, day := days_in_month (year d) (month d - 1)\<rparr>)
      else if 1 < year d then Some (d\<lparr>year := year d - 1, month := 12, day := 31\<rparr>)
      else None)"

text \<open>
  \<open>isoformat()\<close>: \<open>YYYY-MM-DDTHH:MM:SS\<close>, followed by a full stop and six digits when
  the microsecond is not 0.
\<close>

definition pad2 :: "nat \<Rightarrow> str" where
  "pad2 n = [48 + n div 10 mod 10, 48 + n mod 10]"

definition pad4 :: "nat \<Rightarrow> str" where
  "pad4 n = [48 + n div 1000 mod 10, 48 + n div 100 mod 10, 48 + n div 10 mod 10, 48 + n mod 10]"

definition pad6 :: "nat \<Rightarrow> str" where
  "pad6 n =
     [48 + n div 100000 mod 10, 48 + n div 10000 mod 10, 48 + n div 1000 mod 10,
      48 + n div 100 mod 10, 48 + n div 10 mod 10, 48 + n mod 10]"

definition isoformat :: "datetime \<Rightarrow> str" where
  "isoformat d =
     pad4 (year d) @ [45] @ pad2 (month d) @ [45] @ pad2 (day d) @ [84] @
     pad2 (hour d) @ [58] @ pad2 (minute d) @ [58] @ pad2 (second d) @
     (if microsecond d = 0 then [] else [46] @ pad6 (microsecond d))"

text \<open>
  \<open>datetime.fromisoformat\<close> (Python 3.11) on the extended format: a date
  \<open>YYYY-MM-DD\<close>, alone or followed by one character of any kind and a time \<open>HH\<close>,
  \<open>HH:MM\<close>, \<open>HH:MM:SS\<close>, or \<open>HH:MM:SS\<close> with a full stop or a comma and one or
  more digits, of which the first six count. \<open>None\<close> is \<open>ValueError\<close>. The other
  spellings that Python 3.11 reads are not read by this model: dates and times written
  without their separators, week dates, fractions of an hour or of a minute, and a UTC
  offset. A history file holds what \<open>save_historical_data\<close> wrote, which is the output
  of \<open>isoformat\<close>.
\<close>

fun ascii_number :: "nat \<Rightarrow> str \<Rightarrow> nat option" where
  "ascii_number acc [] = Some acc"
| "ascii_number acc (c # cs) =
     (if 48 \<le> c \<and> c \<le> 57 then ascii_number (10 * acc + (c - 48)) cs else None)"

definition iso_fraction :: "str \<Rightarrow> nat option" where
  "iso_fraction ds =
     (if ds = [] \<or> ascii_number 0 ds = None then None
      else map_option (\<lambda>n. n * 10 ^ (6 - length (take 6 ds))) (ascii_number 0 (take 6 ds)))"

definition iso_time :: "str \<Rightarrow> (nat \<times> nat \<times> nat \<times> nat) option" where
  "iso_time ts =
     (if length ts = 2 then map_option (\<lambda>h. (h, 0, 0, 0)) (ascii_number 0 ts)
      else if length ts = 5 \<and> ts ! 2 = 58 then
        (case (ascii_number 0 (take 2 ts), ascii_number 0 (drop 3 ts)) of
           (Some h, Some mi) \<Rightarrow> Some (h, mi, 0, 0)
         | _ \<Rightarrow> None)
      else if 8 \<le> length ts \<and> ts ! 2 = 58 \<and> ts ! 5 = 58 \<and>
              (length ts = 8 \<or> ts ! 8 = 46 \<or> ts ! 8 = 44) then
        (case (ascii_number 0 (take 2 ts), ascii_number 0 (take 2 (drop 3 ts)),
               ascii_number 0 (take 2 (drop 6 ts)),
               if length ts = 8 then Some 0 else iso_fraction (drop 9 ts)) of
           (Some h, Some mi, Some se, Some us) \<Rightarrow> Some (h, mi, se, us)
         | _ \<Rightarrow> None)
      else None)"

definition fromisoformat :: "str \<Rightarrow> datetime option" where
  "fromisoformat s =
     (if 10 \<le> length s \<and> length s \<noteq> 11 \<and> s ! 4 = 45 \<and> s ! 7 = 45 then
        (case (ascii_number 0 (take 4 s), ascii_number 0 (take 2 (drop 5 s)),
               ascii_number 0 (take 2 (drop 8 s)),
               if length s = 10 then Some (0, 0, 0, 0) else iso_time (drop 11 s)) of
           (Some y, Some mo, Some dd, Some (h, mi, se, us)) \<Rightarrow>
             (let d = \<lparr>year = y, month = mo, day = dd, hour = h, minute = mi, second = se,
                       microsecond = us\<rparr>
              in if valid_datetime d then Some d else None)
         | _ \<Rightarrow> None)
      else None)"

section \<open>Python values\<close>

text \<open>
  The dictionaries that the updater keeps, copies and writes as JSON are untyped; they are
  values of this type. A \<open>datetime\<close> is the one value JSON cannot write.
\<close>

datatype pyval =
    PNone
  | PInt int
  | PFloat double
  | PStr str
  | PDatetime datetime
  | PList "pyval list"
  | PDict "(str \<times> pyval) list"

text \<open>The dictionaries of the fetcher, as the fetch functions build them.\<close>

definition error_message :: "error \<Rightarrow> str" where
  "error_message e =
     (case e of RequestFailed m \<Rightarrow> m | ValueError m \<Rightarrow> m | OverflowError m \<Rightarrow> m
      | ZeroDivisionError m \<Rightarrow> m)"

definition failure_dict :: "datetime \<Rightarrow> error \<Rightarrow> pyval" where
  "failure_dict now e =
     PDict [(ascii ''timestamp'', PDatetime now), (ascii ''error'', PStr (error_message e))]"

definition status_name :: "status \<Rightarrow> str" where
  "status_name st =
     (case st of raining \<Rightarrow> ascii ''raining'' | cloudy \<Rightarrow> ascii ''cloudy''
      | sunny \<Rightarrow> ascii ''sunny'' | unknown \<Rightarrow> ascii ''unknown'')"

definition weather_dict :: "weather_data facet \<Rightarrow> pyval" where
  "weather_dict f =
     (case f of
        Failure now e \<Rightarrow> failure_dict now e
      | Data wd \<Rightarrow>
          PDict [(ascii ''timestamp'', PDatetime (weather_timestamp wd)),
                 (ascii ''temperature'',
                    (case temperature wd of None \<Rightarrow> PNone | Some v \<Rightarrow> PFloat v)),
                 (ascii ''humidity'',
                    (case humidity wd of None \<Rightarrow> PNone | Some n \<Rightarrow> PInt (int n))),
                 (ascii ''rainfall_status'', PStr (status_name (rainfall_status wd))),
                 (ascii ''weather_conditions'', PNone)])"

definition reading_dict :: "reading \<Rightarrow> pyval" where
  "reading_dict v =
     PDict [(ascii ''min_rainfall'', PFloat (min_rainfall v)),
            (ascii ''max_rainfall'', PFloat (max_rainfall v)),
            (ascii ''average_rainfall'', PFloat (average_rainfall v))]"

text \<open>With no region the report keeps the integers 0 it was created with.\<close>

definition rainfall_dict :: "rainfall_report facet \<Rightarrow> pyval" where
  "rainfall_dict f =
     (case f of
        Failure now e \<Rightarrow> failure_dict now e
      | Data r \<Rightarrow>
          PDict [(ascii ''timestamp'', PDatetime (rainfall_timestamp r)),
                 (ascii ''regions'', PDict (map (\<lambda>(k, v). (k, reading_dict v)) (regions r))),
                 (ascii ''total_regions'', PInt (int (total_regions r))),
                 (ascii ''average_rainfall'',
                    (if regions r = [] then PInt 0 else PFloat (overall_average_rainfall r)))])"

definition warning_name :: "warning \<Rightarrow> str" where
  "warning_name w =
     (case w of thunderstorm \<Rightarrow> ascii ''thunderstorm'' | heavy_rain \<Rightarrow> ascii ''heavy_rain''
      | strong_wind \<Rightarrow> ascii ''strong_wind'')"

definition level_name :: "level \<Rightarrow> str" where
  "level_name l =
     (case l of none \<Rightarrow> ascii ''none'' | medium \<Rightarrow> ascii ''medium'' | high \<Rightarrow> ascii ''high'')"

definition warnings_dict :: "warnings facet \<Rightarrow> pyval" where
  "warnings_dict f =
     (case f of
        Failure now e \<Rightarrow> failure_dict now e
      | Data a \<Rightarrow>
          PDict [(ascii ''timestamp'', PDatetime (warnings_timestamp a)),
                 (ascii ''active_warnings'',
                    PList (map (\<lambda>w. PStr (warning_name w)) (active_warnings a))),
                 (ascii ''warning_level'', PStr (level_name (warning_level a)))])"

definition all_data_dict :: "all_data \<Rightarrow> pyval" where
  "all_data_dict a =
     PDict [(ascii ''fetch_time'', PDatetime (fetch_time a)),
            (ascii ''current_weather'', weather_dict (current_weather a)),
            (ascii ''rainfall_data'', rainfall_dict (rainfall_data a)),
            (ascii ''weather_warnings'', warnings_dict (weather_warnings a)),
            (ascii ''district_coordinates'',
               PDict (map (\<lambda>(k, lat, lon).
                             (k, PDict [(ascii ''lat'', PFloat lat), (ascii ''lon'', PFloat lon)]))
                        (district_coordinates a)))]"

section \<open>real_time_updater.py\<close>

text \<open>
  The history file: absent, a JSON array, or text that \<open>json.load\<close> rejects (what an
  interrupted \<open>json.dump\<close> leaves behind).
\<close>

datatype history_file = Missing | Json "pyval list" | Garbled

text \<open>
  The state of a \<open>RealTimeUpdater\<close> together with what it changes around it: the history
  file, the number of jobs registered with the \<open>schedule\<close> module and the number of
  worker threads it has started. \<open>update_thread\<close> is the number of the thread it holds.
\<close>

record updater =
  historical_data :: "pyval list"
  historical_file :: history_file
  is_running :: bool
  update_thread :: "nat option"
  scheduled_jobs :: nat
  threads_started :: nat

subsection \<open>load_historical_data\<close>

text \<open>
  The loop of \<open>load_historical_data\<close>. \<open>None\<close> is an exception: an item that is not a
  dictionary or has no \<open>'timestamp'\<close>, a timestamp that is not a string, or a string
  that \<open>fromisoformat\<close> rejects. An item that passes is appended as it was loaded.
\<close>

fun load_filter :: "datetime \<Rightarrow> pyval list \<Rightarrow> pyval list option" where
  "load_filter cutoff_time [] = Some []"
| "load_filter cutoff_time (item # rest) =
     (case item of
        PDict kvs \<Rightarrow>
          (case map_of kvs (ascii ''timestamp'') of
             Some (PStr ts) \<Rightarrow>
               (case fromisoformat ts of
                  None \<Rightarrow> None
                | Some timestamp \<Rightarrow>
                    (case load_filter cutoff_time rest of
                       None \<Rightarrow> None
                     | Some filtered_data \<Rightarrow>
                         Some (if dt_less cutoff_time timestamp then item # filtered_data
                               else filtered_data)))
           | _ \<Rightarrow> None)
      | _ \<Rightarrow> None)"

text \<open>Every exception ends in the \<open>except\<close> branch, which returns the empty list.\<close>

definition load_historical_data :: "datetime \<Rightarrow> history_file \<Rightarrow> pyval list" where
  "load_historical_data now file =
     (case file of
        Json data \<Rightarrow>
          (case minus_24_hours now of
             None \<Rightarrow> []
           | Some cutoff_time \<Rightarrow>
               (case load_filter cutoff_time data of None \<Rightarrow> [] | Some filtered_data \<Rightarrow> filtered_data))
      | _ \<Rightarrow> [])"

subsection \<open>save_historical_data\<close>

primrec convert_datetimes_to_strings :: "pyval \<Rightarrow> pyval" where
  "convert_datetimes_to_strings PNone = PNone"
| "convert_datetimes_to_strings (PInt i) = PInt i"
| "convert_datetimes_to_strings (PFloat x) = PFloat x"
| "convert_datetimes_to_strings (PStr s) = PStr s"
| "convert_datetimes_to_strings (PDatetime d) = PStr (isoformat d)"
| "convert_datetimes_to_strings (PList xs) = PList (map convert_datetimes_to_strings xs)"
| "convert_datetimes_to_strings (PDict kvs) =
     PDict (map (map_prod id convert_datetimes_to_strings) kvs)"

text \<open>
  The body of the loop of \<open>save_historical_data\<close> for one item: the copy with its
  \<open>'timestamp'\<close> replaced when that is a \<open>datetime\<close>, and its \<open>'data'\<close> converted.
  \<open>None\<close> is an exception: the item has no \<open>copy\<close>, or it is a list that holds one of
  the two keys and is then indexed with it.
\<close>

definition serializable_item :: "pyval \<Rightarrow> pyval option" where
  "serializable_item item =
     (case item of
        PDict kvs \<Rightarrow>
          (let kvs1 = (case map_of kvs (ascii ''timestamp'') of
                         Some (PDatetime d) \<Rightarrow> AList.update (ascii ''timestamp'') (PStr (isoformat d)) kvs
                       | _ \<Rightarrow> kvs);
               kvs2 = (case map_of kvs1 (ascii ''data'') of
                         Some v \<Rightarrow> AList.update (ascii ''data'') (convert_datetimes_to_strings v) kvs1
                       | None \<Rightarrow> kvs1)
           in Some (PDict kvs2))
      | PList xs \<Rightarrow>
          (if PStr (ascii ''timestamp'') \<in> set xs \<or> PStr (ascii ''data'') \<in> set xs then None
           else Some (PList xs))
      | _ \<Rightarrow> None)"

fun serializable_data :: "pyval list \<Rightarrow> pyval list option" where
  "serializable_data [] = Some []"
| "serializable_data (item # rest) =
     (case serializable_item item of
        None \<Rightarrow> None
      | Some x \<Rightarrow> (case serializable_data rest of None \<Rightarrow> None | Some xs \<Rightarrow> Some (x # xs)))"

text \<open>\<open>json.dump\<close> raises \<open>TypeError\<close> on a \<open>datetime\<close>.\<close>

primrec json_serializable :: "pyval \<Rightarrow> bool" where
  "json_serializable PNone = True"
| "json_serializable (PInt i) = True"
| "json_serializable (PFloat x) = True"
| "json_serializable (PStr s) = True"
| "json_serializable (PDatetime d) = False"
| "json_serializable (PList xs) = list_all json_serializable xs"
| "json_serializable (PDict kvs) = list_all (pred_prod (\<lambda>k. True) json_serializable) kvs"

text \<open>
  An exception in the loop is caught before the file is opened. An exception of
  \<open>json.dump\<close> is caught after the file was opened for writing.
\<close>

definition save_historical_data :: "updater \<Rightarrow> updater" where
  "save_historical_data s =
     (case serializable_data (historical_data s) of
        None \<Rightarrow> s
      | Some items \<Rightarrow>
          s\<lparr>historical_file := (if list_all json_serializable items then Json items else Garbled)\<rparr>)"

subsection \<open>fetch_and_store_data\<close>

text \<open>
  The list comprehension that keeps the last 24 hours. \<open>None\<close> is an exception:
  \<open>KeyError\<close> without a \<open>'timestamp'\<close>, \<open>TypeError\<close> when the timestamp is not a
  \<open>datetime\<close> and so cannot be compared with one.
\<close>

fun keep_last_24_hours :: "datetime \<Rightarrow> pyval list \<Rightarrow> pyval list option" where
  "keep_last_24_hours cutoff_time [] = Some []"
| "keep_last_24_hours cutoff_time (item # rest) =
     (case item of
        PDict kvs \<Rightarrow>
          (case map_of kvs (ascii ''timestamp'') of
             Some (PDatetime timestamp) \<Rightarrow>
               (case keep_last_24_hours cutoff_time rest of
                  None \<Rightarrow> None
                | Some kept \<Rightarrow>
                    Some (if dt_less cutoff_time timestamp then item # kept else kept))
           | _ \<Rightarrow> None)
      | _ \<Rightarrow> None)"

text \<open>
  \<open>fetch_and_store_data\<close>: the new entry is appended first; an exception while pruning
  leaves the list as it is then and skips the rest. The dump of the current data and the
  charts are written and never read again, each inside its own \<open>try\<close>; they are left
  out.
\<close>

definition fetch_and_store_data :: "outside \<Rightarrow> datetime \<Rightarrow> updater \<Rightarrow> updater" where
  "fetch_and_store_data w now s =
     (let current_data = fetch_all_data w;
          appended = historical_data s @
            [PDict [(ascii ''timestamp'', PDatetime (fetch_time current_data)),
                    (ascii ''data'', all_data_dict current_data)]]
      in case minus_24_hours now of
           None \<Rightarrow> s\<lparr>historical_data := appended\<rparr>
         | Some cutoff_time \<Rightarrow>
             (case keep_last_24_hours cutoff_time appended of
                None \<Rightarrow> s\<lparr>historical_data := appended\<rparr>
              | Some kept \<Rightarrow> save_historical_data (s\<lparr>historical_data := kept\<rparr>)))"

subsection \<open>start_background_updates\<close>

text \<open>
  \<open>__init__\<close>, and \<open>start_background_updates\<close> up to the start of the worker thread. The
  loop of the worker runs beside the caller and is not part of this function.
\<close>

definition init :: "datetime \<Rightarrow> history_file \<Rightarrow> updater" where
  "init now file =
     \<lparr>historical_data = load_historical_data now file,
      historical_file = file,
      is_running = False,
      update_thread = None,
      scheduled_jobs = 0,
      threads_started = 0\<rparr>"

definition start_background_updates :: "outside \<Rightarrow> datetime \<Rightarrow> updater \<Rightarrow> updater" where
  "start_background_updates w now s =
     (if is_running s then s
      else
        (let s1 = s\<lparr>is_running := True, scheduled_jobs := Suc (scheduled_jobs s)\<rparr>;
             s2 = fetch_and_store_data w now s1
         in s2\<lparr>update_thread := Some (threads_started s2),
                threads_started := Suc (threads_started s2)\<rparr>))"

text \<open>The time an entry carries, whether it holds a \<open>datetime\<close> or its ISO string.\<close>

definition entry_time :: "pyval \<Rightarrow> datetime option" where
  "entry_time item =
     (case item of
        PDict kvs \<Rightarrow>
          (case map_of kvs (ascii ''timestamp'') of
             Some (PDatetime d) \<Rightarrow> Some d
           | Some (PStr ts) \<Rightarrow> fromisoformat ts
           | _ \<Rightarrow> None)
      | _ \<Rightarrow> None)"

section \<open>Definitions for the proofs\<close>

subsection \<open>What the groups of a pattern can capture\<close>

text \<open>
  Two syntactic checks on a pattern, used to show that \<open>float\<close> never rejects a captured
  string: every group numbered 2 or 3 is \<^verbatim>\<open>\d+\<close>, and a group takes part in every
  match.
\<close>

fun digit_groups :: "re \<Rightarrow> bool" where
  "digit_groups (Group n r) = (if n = 2 \<or> n = 3 then r = Plus Digit else digit_groups r)"
| "digit_groups (Opt r) = digit_groups r"
| "digit_groups (Alt a b) = (digit_groups a \<and> digit_groups b)"
| "digit_groups (Seq a b) = (digit_groups a \<and> digit_groups b)"
| "digit_groups r = True"

fun sets_group :: "nat \<Rightarrow> re \<Rightarrow> bool" where
  "sets_group n (Group m r) = (m = n \<or> sets_group n r)"
| "sets_group n (Seq a b) = (sets_group n a \<or> sets_group n b)"
| "sets_group n (Alt a b) = (sets_group n a \<and> sets_group n b)"
| "sets_group n r = False"

definition digit_caps :: "caps \<Rightarrow> bool" where
  "digit_caps c \<longleftrightarrow> (\<forall>n d. (n = 2 \<or> n = 3) \<and> c n = Some d \<longrightarrow> d \<noteq> [] \<and> list_all isdecimal d)"

subsection \<open>Floats that are whole, and floats that are not small\<close>

text \<open>
  \<open>at_least c x\<close>: the float \<open>x\<close> is the infinity or a finite value of \<open>c\<close> or more.
  \<open>whole x\<close>: it is the infinity or a natural number.
\<close>

fun at_least :: "rat \<Rightarrow> double \<Rightarrow> bool" where
  "at_least c (Finite v) = (c \<le> v)"
| "at_least c PlusInf = True"
| "at_least c x = False"

fun whole :: "double \<Rightarrow> bool" where
  "whole (Finite v) = (0 \<le> v \<and> v = of_int \<lfloor>v\<rfloor>)"
| "whole PlusInf = True"
| "whole x = False"

subsection \<open>Concrete index pages and requests\<close>

text \<open>An index page that has only \<open>img\<close> elements.\<close>

definition icons_page :: "str list \<Rightarrow> index_page" where
  "icons_page srcs = \<lparr>strings = [], get_text = [], get_text_lower = [], img_srcs = srcs\<rparr>"

text \<open>
  An index page whose only string is a humidity of 4301 digits, every digit a zero, before
  the per cent sign.
\<close>

definition long_humidity_page :: index_page where
  "long_humidity_page =
     \<lparr>strings = [replicate 4301 48 @ [37]],
      get_text = replicate 4301 48 @ [37],
      get_text_lower = replicate 4301 48 @ [37],
      img_srcs = []\<rparr>"

text \<open>Both requests for the index page time out; the rainfall page is the example.\<close>

definition example_outside :: outside where
  "example_outside =
     \<lparr>clock_fetch = t0, clock_weather = t0, clock_rainfall = t0, clock_warnings = t0,
      weather_response = Raises (ascii ''timeout''),
      rainfall_response = Ok example_text,
      warnings_response = Raises (ascii ''timeout'')\<rparr>"

subsection \<open>Histories\<close>

text \<open>
  The dictionary that \<open>fetch_and_store_data\<close> appends, and what \<open>save_historical_data\<close>
  writes for it.
\<close>

definition entry :: "datetime \<Rightarrow> pyval \<Rightarrow> pyval" where
  "entry t v = PDict [(ascii ''timestamp'', PDatetime t), (ascii ''data'', v)]"

definition saved_entry :: "datetime \<Rightarrow> pyval \<Rightarrow> pyval" where
  "saved_entry t v =
     PDict [(ascii ''timestamp'', PStr (isoformat t)),
            (ascii ''data'', convert_datetimes_to_strings v)]"

text \<open>A history of appended entries, and the same history as it is written.\<close>

definition entries :: "(datetime \<times> pyval) list \<Rightarrow> pyval list" where
  "entries tvs = map (\<lambda>(t, v). entry t v) tvs"

definition saved_entries :: "(datetime \<times> pyval) list \<Rightarrow> pyval list" where
  "saved_entries tvs = map (\<lambda>(t, v). saved_entry t v) tvs"

text \<open>An entry whose \<open>'timestamp'\<close> is a string.\<close>

definition string_stamped :: "pyval \<Rightarrow> bool" where
  "string_stamped item =
     (case item of
        PDict kvs \<Rightarrow> (case map_of kvs (ascii ''timestamp'') of Some (PStr ts) \<Rightarrow> True | _ \<Rightarrow> False)
      | _ \<Rightarrow> False)"

text \<open>The value under \<open>'timestamp'\<close>.\<close>

definition timestamp_of :: "pyval \<Rightarrow> pyval option" where
  "timestamp_of item =
     (case item of PDict kvs \<Rightarrow> map_of kvs (ascii ''timestamp'') | _ \<Rightarrow> None)"

text \<open>An hour and two days after \<open>t0\<close>.\<close>

definition t1 :: datetime where
  "t1 = \<lparr>year = 2024, month = 6, day = 1, hour = 13, minute = 0, second = 0, microsecond = 0\<rparr>"

definition t2 :: datetime where
  "t2 = \<lparr>year = 2024, month = 6, day = 3, hour = 12, minute = 0, second = 0, microsecond = 0\<rparr>"

text \<open>The outside when all three requests time out and every clock reads \<open>now\<close>.\<close>

definition unreachable :: "datetime \<Rightarrow> outside" where
  "unreachable now =
     \<lparr>clock_fetch = now, clock_weather = now, clock_rainfall = now, clock_warnings = now,
      weather_response = Raises (ascii ''timeout''),
      rainfall_response = Raises (ascii ''timeout''),
      warnings_response = Raises (ascii ''timeout'')\<rparr>"

text \<open>
  A first process starts without a history file and runs one update at \<open>t0\<close>; a second
  process starts an hour later on the file the first one wrote, and runs one update two
  days after \<open>t0\<close>.
\<close>

definition first_run :: updater where
  "first_run = fetch_and_store_data (unreachable t0) t0 (init t0 Missing)"

definition restarted :: updater where
  "restarted = init t1 (historical_file first_run)"

definition second_run :: updater where
  "second_run = fetch_and_store_data (unreachable t2) t2 restarted"

text \<open>Two calls of \<open>start_background_updates\<close> on a new updater.\<close>

definition second_start :: updater where
  "second_start =
     start_background_updates (unreachable t2) t2
       (start_background_updates (unreachable t0) t0 (init t0 Missing))"

text \<open>Any number of calls of \<open>start_background_updates\<close>, one after the other.\<close>

fun repeated_starts :: "(outside \<times> datetime) list \<Rightarrow> updater \<Rightarrow> updater" where
  "repeated_starts [] s = s"
| "repeated_starts ((w, now) # rest) s = repeated_starts rest (start_background_updates w now s)"

section \<open>Properties of the floating-point operations\<close>

subsection \<open>Rounding\<close>

text \<open>
  The facts about \<open>rnd\<close> that the parser needs: a number that is a float is returned
  as it is, a rounding stays above every power of two that the number reaches and below
  twice the number, and a natural number rounds to a natural number.
\<close>

lemma rhe_int: "round_half_even (of_int k) = k"
  by (simp add: round_half_even_def)

lemma rhe_nat: "round_half_even (of_nat k) = int k"
  using rhe_int [of "int k"] by simp

lemma rhe_ge_floor: "\<lfloor>x\<rfloor> \<le> round_half_even x"
  by (simp add: round_half_even_def Let_def)

lemma rhe_le: "of_int (round_half_even x) \<le> x + 1"
proof -
  have "of_int \<lfloor>x\<rfloor> \<le> x" by simp
  thus ?thesis unfolding round_half_even_def Let_def by (auto simp del: of_int_floor_le)
qed

text \<open>
  A natural number below \<open>2 ^ 53\<close>, divided by a power of two down to \<open>2 ^ 1074\<close>,
  is a float.
\<close>

lemma rnd_exact:
  assumes k: "k < 2 ^ 53" and j: "j \<le> denorm"
  shows "rnd_nonneg (of_nat k / 2 ^ j) = Finite (of_nat k / 2 ^ j)"
proof -
  define X :: nat where "X = k * 2 ^ (denorm - j)"
  define p where "p = floorlog 2 X - 53"
  have pw: "(2::rat) ^ denorm = 2 ^ j * 2 ^ (denorm - j)"
    using j by (simp flip: power_add)
  have x: "of_nat k / 2 ^ j * 2 ^ denorm = (of_nat X :: rat)"
    unfolding X_def pw by simp
  have "X < 2 ^ (53 + (denorm - j))"
    unfolding X_def power_add using k by (simp add: mult_strict_right_mono)
  hence "floorlog 2 X \<le> 53 + (denorm - j)" by (intro floorlog_leI) simp_all
  hence "p \<le> denorm - j" by (simp add: p_def)
  hence "(2::nat) ^ p dvd 2 ^ (denorm - j)" by (simp add: le_imp_power_dvd)
  hence "2 ^ p dvd X" by (simp add: X_def)
  then obtain m where m: "X = 2 ^ p * m" by (auto simp: dvd_def)
  have q: "(of_nat X :: rat) / 2 ^ p = of_nat m" by (simp add: m)
  have v: "of_int (round_half_even (of_nat X / 2 ^ p)) * 2 ^ p / 2 ^ denorm = (of_nat k / 2 ^ j :: rat)"
    unfolding q rhe_nat using x [symmetric] by (simp add: m mult.commute)
  have "(of_nat k :: rat) < 2 ^ 53" using k by (metis of_nat_less_iff of_nat_numeral of_nat_power)
  moreover have "(of_nat k :: rat) * 1 \<le> of_nat k * 2 ^ j" by (rule mult_left_mono) simp_all
  hence "(of_nat k :: rat) / 2 ^ j \<le> of_nat k" by (simp add: divide_le_eq)
  moreover have "(2::rat) ^ 53 \<le> 2 ^ emax" by (rule power_increasing) (simp_all add: emax_def)
  ultimately have small: "\<not> (2::rat) ^ emax \<le> of_nat k / 2 ^ j"
    by linarith
  show ?thesis
    unfolding rnd_nonneg_def Let_def x floor_of_nat nat_int p_def [symmetric] v
    using small by simp
qed

lemma rnd_nonneg_scaled:
  fixes q :: rat
  defines "x \<equiv> q * 2 ^ denorm"
  defines "p \<equiv> floorlog 2 (nat \<lfloor>x\<rfloor>) - 53"
  defines "w \<equiv> of_int (round_half_even (x / 2 ^ p)) * 2 ^ p"
  shows "rnd_nonneg q = (if 2 ^ emax \<le> w / 2 ^ denorm then PlusInf else Finite (w / 2 ^ denorm))"
  unfolding rnd_nonneg_def Let_def x_def p_def w_def by simp

lemma scaled_lower:
  fixes x :: rat
  assumes t: "2 ^ t \<le> x"
  defines "p \<equiv> floorlog 2 (nat \<lfloor>x\<rfloor>) - 53"
  shows "2 ^ t \<le> (of_int (round_half_even (x / 2 ^ p)) :: rat) * 2 ^ p"
proof -
  define N where "N = nat \<lfloor>x\<rfloor>"
  define L where "L = floorlog 2 N"
  have "(of_int (2 ^ t) :: rat) \<le> x" using t by simp
  hence ft: "(2::int) ^ t \<le> \<lfloor>x\<rfloor>" by (simp only: le_floor_iff)
  hence Nt: "2 ^ t \<le> N" unfolding N_def by (simp add: le_nat_iff)
  hence N0: "0 < N" by (metis less_le_trans zero_less_numeral zero_less_power)
  have "(0::int) \<le> 2 ^ t" by simp
  hence "0 \<le> \<lfloor>x\<rfloor>" using ft by (rule order_trans)
  hence "(of_nat N :: rat) = of_int \<lfloor>x\<rfloor>" unfolding N_def by (rule of_nat_nat)
  hence Nx: "(of_nat N :: rat) \<le> x" by simp
  have p: "p = L - 53" by (simp add: p_def L_def N_def)
  show ?thesis
  proof (cases "L \<le> 53")
    case True
    hence p0: "p = 0" by (simp add: p)
    have "(2::rat) ^ t = of_int (2 ^ t)" by simp
    also have "\<dots> \<le> of_int \<lfloor>x\<rfloor>" using ft by (simp only: of_int_le_iff)
    also have "\<dots> \<le> of_int (round_half_even x)" using rhe_ge_floor [of x] by (simp only: of_int_le_iff)
    finally show ?thesis by (simp add: p0)
  next
    case False
    hence L: "L = p + 53" by (simp add: p)
    have lo: "2 ^ (L - 1) \<le> N" using floorlog_bounds [of N 2] N0 by (simp add: L_def)
    have "N < 2 ^ L" using floorlog_bounds [of N 2] N0 by (simp add: L_def)
    with Nt have "(2::nat) ^ t < 2 ^ L" by (rule le_less_trans)
    hence "t < L" by (simp only: power_strict_increasing_iff one_less_numeral_iff semiring_norm)
    hence tL: "t \<le> L - 1" by simp
    have "(2::rat) ^ (p + 52) = of_nat (2 ^ (L - 1))" by (simp add: L)
    also have "\<dots> \<le> of_nat N" using lo by (simp only: of_nat_le_iff)
    also have "\<dots> \<le> x" by (rule Nx)
    finally have "(2::rat) ^ 52 * 2 ^ p \<le> x" by (simp add: power_add mult.commute)
    hence "(2::rat) ^ 52 \<le> x / 2 ^ p" by (simp add: le_divide_eq)
    hence "(of_int (2 ^ 52) :: rat) \<le> x / 2 ^ p" by simp
    hence "(2::int) ^ 52 \<le> \<lfloor>x / 2 ^ p\<rfloor>" by (simp only: le_floor_iff)
    hence "(2::int) ^ 52 \<le> round_half_even (x / 2 ^ p)" using rhe_ge_floor [of "x / 2 ^ p"] by linarith
    hence "(of_int (2 ^ 52) :: rat) \<le> of_int (round_half_even (x / 2 ^ p))" by (simp only: of_int_le_iff)
    hence "(2::rat) ^ 52 * 2 ^ p \<le> of_int (round_half_even (x / 2 ^ p)) * 2 ^ p"
      by (simp add: mult_right_mono)
    moreover have "(2::rat) ^ t \<le> 2 ^ (L - 1)" using tL by (simp add: power_increasing)
    moreover have "(2::rat) ^ (L - 1) = 2 ^ 52 * 2 ^ p" by (simp add: L power_add mult.commute)
    ultimately show ?thesis by linarith
  qed
qed

lemma rnd_lower:
  assumes "2 ^ t \<le> q * 2 ^ denorm"
  shows "at_least (2 ^ t / 2 ^ denorm) (rnd_nonneg q)"
  using scaled_lower [OF assms]
  by (simp add: rnd_nonneg_scaled divide_le_cancel)

lemma rhe_nonneg: "0 \<le> x \<Longrightarrow> 0 \<le> round_half_even x"
  using rhe_ge_floor [of x] by (simp add: order_trans [of 0 "\<lfloor>x\<rfloor>"])

lemma rnd_nonneg_sign:
  assumes "0 \<le> q" and "rnd_nonneg q = Finite v"
  shows "0 \<le> v"
proof -
  define p where "p = floorlog 2 (nat \<lfloor>q * 2 ^ denorm\<rfloor>) - 53"
  have "0 \<le> q * 2 ^ denorm / 2 ^ p" using assms(1) by simp
  hence "0 \<le> round_half_even (q * 2 ^ denorm / 2 ^ p)" by (rule rhe_nonneg)
  hence "(0::rat) \<le> of_int (round_half_even (q * 2 ^ denorm / 2 ^ p)) * 2 ^ p / 2 ^ denorm" by simp
  thus ?thesis using assms(2) unfolding rnd_nonneg_def Let_def p_def by (simp split: if_splits)
qed

lemma scaled_upper:
  fixes x :: rat
  assumes x1: "1 \<le> x"
  defines "p \<equiv> floorlog 2 (nat \<lfloor>x\<rfloor>) - 53"
  shows "(of_int (round_half_even (x / 2 ^ p)) :: rat) * 2 ^ p \<le> 2 * x"
proof -
  define N where "N = nat \<lfloor>x\<rfloor>"
  define L where "L = floorlog 2 N"
  have "(of_int 1 :: rat) \<le> x" using x1 by simp
  hence f1: "1 \<le> \<lfloor>x\<rfloor>" by (simp only: le_floor_iff)
  hence N0: "0 < N" unfolding N_def by simp
  have "(of_nat N :: rat) = of_int \<lfloor>x\<rfloor>" unfolding N_def using f1 by (intro of_nat_nat) simp
  hence Nx: "(of_nat N :: rat) \<le> x" by simp
  have p: "p = L - 53" by (simp add: p_def L_def N_def)
  have "(2::rat) ^ p \<le> x"
  proof (cases "L \<le> 53")
    case True thus ?thesis using x1 by (simp add: p)
  next
    case False
    hence "p \<le> L - 1" by (simp add: p)
    hence "(2::nat) ^ p \<le> 2 ^ (L - 1)" by (simp add: power_increasing)
    also have "\<dots> \<le> N" using floorlog_bounds [of N 2] N0 by (simp add: L_def)
    finally have "(of_nat (2 ^ p) :: rat) \<le> of_nat N" by (simp only: of_nat_le_iff)
    hence "(of_nat (2 ^ p) :: rat) \<le> x" using Nx by (rule order_trans)
    thus ?thesis by simp
  qed
  moreover have "(of_int (round_half_even (x / 2 ^ p)) :: rat) * 2 ^ p \<le> (x / 2 ^ p + 1) * 2 ^ p"
    using rhe_le [of "x / 2 ^ p"] by (simp only: mult_right_mono zero_le_power zero_le_numeral)
  moreover have "(x / 2 ^ p + 1) * 2 ^ p = x + 2 ^ p" by (simp add: distrib_right)
  ultimately show ?thesis by linarith
qed

lemma rnd_finite:
  assumes q1: "1 \<le> q" and small: "2 * q < 2 ^ emax"
  shows "\<exists>v. rnd_nonneg q = Finite v \<and> 1 \<le> v"
proof -
  have "(1::rat) * 1 \<le> q * 2 ^ denorm" using q1 by (intro mult_mono) simp_all
  hence x1: "1 \<le> q * 2 ^ denorm" by simp
  define w where "w = (of_int (round_half_even (q * 2 ^ denorm / 2 ^ (floorlog 2 (nat \<lfloor>q * 2 ^ denorm\<rfloor>) - 53))) :: rat)
       * 2 ^ (floorlog 2 (nat \<lfloor>q * 2 ^ denorm\<rfloor>) - 53)"
  have "w \<le> 2 * (q * 2 ^ denorm)" unfolding w_def using x1 by (rule scaled_upper)
  hence "w / 2 ^ denorm \<le> 2 * q" by (simp add: divide_le_eq)
  hence fin: "\<not> 2 ^ emax \<le> w / 2 ^ denorm" using small by linarith
  have "(2::rat) ^ denorm \<le> q * 2 ^ denorm" using q1 by simp
  hence "at_least (2 ^ denorm / 2 ^ denorm) (rnd_nonneg q)" by (rule rnd_lower)
  moreover have "rnd_nonneg q = Finite (w / 2 ^ denorm)"
    using fin unfolding rnd_nonneg_def Let_def w_def by simp
  ultimately show ?thesis by simp
qed

lemma rnd_whole:
  assumes "rnd_nonneg (of_nat n) = Finite v"
  shows "\<exists>k. v = of_nat k"
proof (cases "n < 2 ^ 53")
  case True
  hence "rnd_nonneg (of_nat n / 2 ^ 0) = Finite (of_nat n / 2 ^ 0)" by (rule rnd_exact) simp
  thus ?thesis using assms by auto
next
  case False
  define X where "X = n * 2 ^ denorm"
  define p where "p = floorlog 2 X - 53"
  define m where "m = round_half_even (of_nat X / 2 ^ p)"
  have x: "(of_nat n :: rat) * 2 ^ denorm = of_nat X" by (simp add: X_def)
  have "(2::nat) ^ 53 * 2 ^ denorm \<le> X" unfolding X_def using False by (intro mult_right_mono) simp_all
  hence "(2::nat) ^ (53 + denorm) \<le> X" by (simp add: power_add)
  hence "Suc (53 + denorm) \<le> floorlog 2 X" by (rule floorlog_ge_SucI) simp
  hence pd: "denorm \<le> p" by (simp add: p_def)
  have "(0::rat) \<le> of_nat X / 2 ^ p" by simp
  hence m0: "0 \<le> m" unfolding m_def by (rule rhe_nonneg)
  have "(2::rat) ^ p = 2 ^ (p - denorm) * 2 ^ denorm" using pd by (simp flip: power_add)
  hence "(of_int m :: rat) * 2 ^ p / 2 ^ denorm = of_int m * 2 ^ (p - denorm)" by simp
  also have "\<dots> = of_nat (nat m * 2 ^ (p - denorm))" using m0 by simp
  finally have k: "(of_int m :: rat) * 2 ^ p / 2 ^ denorm = of_nat (nat m * 2 ^ (p - denorm))" .
  have v: "v = of_int m * 2 ^ p / 2 ^ denorm" using assms
    unfolding rnd_nonneg_def Let_def x floor_of_nat nat_int p_def [symmetric] m_def [symmetric]
    by (simp split: if_splits)
  show ?thesis unfolding v by (rule exI, rule k)
qed

text \<open>
  The rounding of a number between two powers of two, \<open>2 ^ e\<close> and \<open>2 ^ (e + 1)\<close>:
  the last place kept is worth \<open>2 ^ (e - 52)\<close>.
\<close>

lemma rnd_eval:
  assumes lo: "2 ^ e \<le> q" and hi: "q < 2 ^ Suc e" and e: "52 \<le> e"
  shows "rnd_nonneg q =
           (let v = of_int (round_half_even (q / 2 ^ (e - 52))) * 2 ^ (e - 52)
            in if 2 ^ emax \<le> v then PlusInf else Finite v)"
proof -
  define x where "x = q * 2 ^ denorm"
  define N where "N = nat \<lfloor>x\<rfloor>"
  have "(2::rat) ^ (e + denorm) \<le> x" unfolding x_def power_add using lo by simp
  hence "(of_int (2 ^ (e + denorm)) :: rat) \<le> x" by simp
  hence fl: "(2::int) ^ (e + denorm) \<le> \<lfloor>x\<rfloor>" by (simp only: le_floor_iff)
  hence Nlo: "2 ^ (e + denorm) \<le> N" unfolding N_def by (simp add: le_nat_iff)
  have "x < 2 ^ Suc (e + denorm)" unfolding x_def using hi by (simp add: power_add)
  hence "x < of_int (2 ^ Suc (e + denorm))" by simp
  hence "\<lfloor>x\<rfloor> < 2 ^ Suc (e + denorm)" by (simp only: floor_less_iff)
  moreover have "(0::int) \<le> 2 ^ (e + denorm)" by simp
  hence "0 \<le> \<lfloor>x\<rfloor>" using fl by (rule order_trans)
  ultimately have Nhi: "N < 2 ^ Suc (e + denorm)" unfolding N_def by (simp add: nat_less_iff)
  have "floorlog 2 N \<le> Suc (e + denorm)" using Nhi by (intro floorlog_leI) simp_all
  moreover have "Suc (e + denorm) \<le> floorlog 2 N" using Nlo by (rule floorlog_ge_SucI) simp
  ultimately have "floorlog 2 N = Suc (e + denorm)" by simp
  hence p: "floorlog 2 N - 53 = (e - 52) + denorm" using e by simp
  have sc: "x / 2 ^ ((e - 52) + denorm) = q / 2 ^ (e - 52)" by (simp add: x_def power_add)
  have "(of_int k :: rat) * 2 ^ ((e - 52) + denorm) / 2 ^ denorm = of_int k * 2 ^ (e - 52)" for k
    by (simp add: power_add)
  thus ?thesis
    unfolding rnd_nonneg_def Let_def x_def [symmetric] N_def [symmetric] p sc by simp
qed

lemma rhe_tie: "round_half_even (of_int k + 1 / 2) = (if even k then k else k + 1)"
proof -
  have "\<lfloor>(of_int k :: rat) + 1 / 2\<rfloor> = k" by (rule floor_unique) simp_all
  thus ?thesis by (simp add: round_half_even_def)
qed

lemma not_huge: "v < 2 ^ 64 \<Longrightarrow> \<not> (2::rat) ^ emax \<le> v"
proof -
  assume "v < 2 ^ 64"
  moreover have "(2::rat) ^ 64 \<le> 2 ^ emax" by (rule power_increasing) (simp_all add: emax_def)
  ultimately show ?thesis by linarith
qed

lemma rnd_small_nat: "n < 2 ^ 53 \<Longrightarrow> rnd (of_nat n) = Finite (of_nat n)"
  using rnd_exact [of n 0] by (simp add: rnd_def)

lemma rnd_small_half: "n < 2 ^ 53 \<Longrightarrow> rnd (of_nat n / 2) = Finite (of_nat n / 2)"
  using rnd_exact [of n 1] by (simp add: rnd_def denorm_def)

lemma rnd_small_quarter: "n < 2 ^ 53 \<Longrightarrow> rnd (of_nat n / 4) = Finite (of_nat n / 4)"
  using rnd_exact [of n 2] by (simp add: rnd_def denorm_def)

lemma rnd_eval_small:
  assumes lo: "2 ^ e \<le> q" and hi: "q < 2 ^ Suc e" and e: "e \<le> 52"
  shows "rnd_nonneg q = Finite (of_int (round_half_even (q * 2 ^ (52 - e))) / 2 ^ (52 - e))"
proof -
  define x where "x = q * 2 ^ denorm"
  define N where "N = nat \<lfloor>x\<rfloor>"
  define k where "k = 52 - e"
  have kd: "k \<le> denorm" by (simp add: k_def denorm_def)
  have "(2::rat) ^ (e + denorm) \<le> x" unfolding x_def power_add using lo by simp
  hence "(of_int (2 ^ (e + denorm)) :: rat) \<le> x" by simp
  hence fl: "(2::int) ^ (e + denorm) \<le> \<lfloor>x\<rfloor>" by (simp only: le_floor_iff)
  hence Nlo: "2 ^ (e + denorm) \<le> N" unfolding N_def by (simp add: le_nat_iff)
  have "x < 2 ^ Suc (e + denorm)" unfolding x_def using hi by (simp add: power_add)
  hence "x < of_int (2 ^ Suc (e + denorm))" by simp
  hence "\<lfloor>x\<rfloor> < 2 ^ Suc (e + denorm)" by (simp only: floor_less_iff)
  moreover have "(0::int) \<le> 2 ^ (e + denorm)" by simp
  hence "0 \<le> \<lfloor>x\<rfloor>" using fl by (rule order_trans)
  ultimately have Nhi: "N < 2 ^ Suc (e + denorm)" unfolding N_def by (simp add: nat_less_iff)
  have "floorlog 2 N \<le> Suc (e + denorm)" using Nhi by (intro floorlog_leI) simp_all
  moreover have "Suc (e + denorm) \<le> floorlog 2 N" using Nlo by (rule floorlog_ge_SucI) simp
  ultimately have "floorlog 2 N = Suc (e + denorm)" by simp
  hence p: "floorlog 2 N - 53 = denorm - k" using e kd by (simp add: k_def)
  have pw: "(2::rat) ^ denorm = 2 ^ (denorm - k) * 2 ^ k"
    using kd by (simp flip: power_add)
  have sc: "x / 2 ^ (denorm - k) = q * 2 ^ k" unfolding x_def pw by simp
  have unscale: "(of_int m :: rat) * 2 ^ (denorm - k) / 2 ^ denorm = of_int m / 2 ^ k" for m
    unfolding pw by simp
  define m where "m = round_half_even (q * 2 ^ k)"
  have "q * 2 ^ k < 2 ^ Suc e * 2 ^ k" using hi by (simp only: mult_strict_right_mono zero_less_power zero_less_numeral)
  also have "\<dots> = 2 ^ 53" using e by (simp add: k_def flip: power_add)
  finally have "q * 2 ^ k + 1 < 2 ^ 53 + 1" by simp
  with rhe_le [of "q * 2 ^ k"] have "(of_int m :: rat) < 2 ^ 53 + 1" unfolding m_def by linarith
  moreover have "(of_int m :: rat) / 2 ^ k \<le> of_int m \<or> of_int m / 2 ^ k \<le> (0::rat)"
  proof (cases "0 \<le> m")
    case True
    have "(of_int m :: rat) * 1 \<le> of_int m * 2 ^ k" using True by (intro mult_left_mono) simp_all
    thus ?thesis by (simp add: divide_le_eq)
  next
    case False
    hence "(of_int m :: rat) \<le> 0" by simp
    thus ?thesis by (simp add: divide_le_0_iff)
  qed
  moreover have "(2::rat) ^ 53 + 1 \<le> 2 ^ 54" by simp
  moreover have "(2::rat) ^ 54 \<le> 2 ^ emax" by (rule power_increasing) (simp_all add: emax_def)
  moreover have "(0::rat) < 2 ^ emax" by simp
  ultimately have fin: "\<not> 2 ^ emax \<le> (of_int m :: rat) / 2 ^ k" by linarith
  show ?thesis
    unfolding rnd_nonneg_def Let_def x_def [symmetric] N_def [symmetric] p sc unscale
      m_def [symmetric] k_def [symmetric]
    using fin by simp
qed

text \<open>The roundings that the concrete pages need.\<close>

lemma rnd_0: "rnd 0 = Finite 0"
  using rnd_small_nat [of 0] by simp

lemma rnd_1: "rnd 1 = Finite 1"
  using rnd_small_nat [of 1] by simp

lemma rnd_numeral: "numeral k < (2::nat) ^ 53 \<Longrightarrow> rnd (numeral k) = Finite (numeral k)"
  using rnd_small_nat [of "numeral k"] by simp

lemma rnd_numeral_half:
  "numeral k < (2::nat) ^ 53 \<Longrightarrow> rnd (numeral k / 2) = Finite (numeral k / 2)"
  using rnd_small_half [of "numeral k"] by simp

lemma rnd_numeral_quarter:
  "numeral k < (2::nat) ^ 53 \<Longrightarrow> rnd (numeral k / 4) = Finite (numeral k / 4)"
  using rnd_small_quarter [of "numeral k"] by simp

lemma rnd_one_half: "rnd (1 / 2) = Finite (1 / 2)"
  using rnd_small_half [of 1] by simp

lemma rnd_2_53: "rnd 9007199254740992 = Finite 9007199254740992"
  using rnd_eval [of 53 9007199254740992] rhe_int [of 4503599627370496]
  by (simp add: rnd_def not_huge Let_def)

lemma rnd_2_53_plus_1: "rnd 9007199254740993 = Finite 9007199254740992"
proof -
  have r: "round_half_even (9007199254740993 / 2) = 4503599627370496"
    using rhe_tie [of 4503599627370496] by simp
  show ?thesis
    using rnd_eval [of 53 9007199254740993] by (simp add: rnd_def r not_huge Let_def)
qed

lemma rhe_four_thirds: "round_half_even (18014398509481984 / 3) = 6004799503160661"
proof -
  have "\<lfloor>(18014398509481984 / 3 :: rat)\<rfloor> = 6004799503160661" by (rule floor_unique) simp_all
  thus ?thesis by (simp add: round_half_even_def)
qed

lemma rnd_four_thirds: "rnd (4 / 3) = Finite (6004799503160661 / 4503599627370496)"
  using rnd_eval_small [of 0 "4 / 3"] by (simp add: rnd_def rhe_four_thirds)

lemmas float_eval = rnd_0 rnd_1 rnd_numeral rnd_numeral_half rnd_numeral_quarter rnd_one_half
  rnd_2_53 rnd_2_53_plus_1 py_sum_def truediv_int_def zero_double_def

subsection \<open>Lower bounds that survive rounding\<close>

lemma rnd_nonneg_cases: "rnd_nonneg q = PlusInf \<or> (\<exists>v. rnd_nonneg q = Finite v)"
  by (simp add: rnd_nonneg_def Let_def)

lemma rnd_nonneg_below_emax: "rnd_nonneg q = Finite v \<Longrightarrow> v < 2 ^ emax"
  by (simp add: rnd_nonneg_def Let_def split: if_splits)

lemma rnd_at_least:
  assumes "2 ^ t \<le> q * 2 ^ denorm"
  shows "at_least (2 ^ t / 2 ^ denorm) (rnd q)"
proof -
  have "(0::rat) < 2 ^ t" by simp
  hence "0 < q * 2 ^ denorm" using assms by (rule less_le_trans)
  hence "0 \<le> q" by (simp add: zero_less_mult_iff)
  with rnd_lower[OF assms] show ?thesis by (simp add: rnd_def)
qed

lemma rnd_at_least_1: "1 \<le> q \<Longrightarrow> at_least 1 (rnd q)"
  using rnd_at_least [of denorm q] by simp

lemma denorm_pred: "(2::rat) ^ denorm = 2 * 2 ^ (denorm - 1)"
proof -
  have "denorm = Suc (denorm - 1)" by (simp add: denorm_def)
  hence "(2::rat) ^ denorm = 2 ^ Suc (denorm - 1)" by simp
  thus ?thesis by (simp only: power_Suc)
qed

lemma rnd_at_least_half:
  assumes "1 / 2 \<le> q"
  shows "at_least (1 / 2) (rnd q)"
proof -
  have "(2::rat) ^ (denorm - 1) \<le> q * (2 * 2 ^ (denorm - 1))"
    using assms by (simp add: field_simps)
  hence "2 ^ (denorm - 1) \<le> q * 2 ^ denorm" by (simp only: denorm_pred)
  from rnd_at_least[OF this] have "at_least (2 ^ (denorm - 1) / (2 * 2 ^ (denorm - 1))) (rnd q)"
    by (simp only: denorm_pred)
  thus ?thesis by simp
qed

lemma rnd_at_least_2_52:
  assumes "2 ^ 52 \<le> q"
  shows "at_least (2 ^ 52) (rnd q)"
proof -
  have "(2::rat) ^ (52 + denorm) \<le> q * 2 ^ denorm"
    unfolding power_add using assms by (intro mult_right_mono) simp_all
  from rnd_at_least[OF this] show ?thesis by (simp add: power_add)
qed

lemma denorm_emax: "(2::rat) ^ denorm = 2 ^ 49 * (2 * 2 ^ emax)"
proof -
  have "denorm = 49 + Suc emax" by (simp add: denorm_def emax_def)
  hence "(2::rat) ^ denorm = 2 ^ (49 + Suc emax)" by simp
  thus ?thesis by (simp only: power_add power_Suc)
qed

lemma quotient_not_zero:
  assumes x: "1 / 2 \<le> x" and c1: "1 \<le> c" and c2: "c < 2 ^ emax"
  shows "rnd (x / c) \<noteq> Finite 0"
proof -
  have c0: "0 < c" using c1 by simp
  have "2 ^ 49 * (2 * c) \<le> 2 ^ 49 * (2 * (2::rat) ^ emax)"
    using c2 by (intro mult_left_mono) simp_all
  also have "\<dots> = 2 ^ denorm" by (simp only: denorm_emax)
  also have "\<dots> \<le> (2 * x) * 2 ^ denorm" using x by (simp add: mult_le_cancel_right1)
  finally have "2 ^ 49 * c \<le> x * 2 ^ denorm" by simp
  hence "2 ^ 49 \<le> x * 2 ^ denorm / c" using c0 by (simp add: le_divide_eq)
  hence "2 ^ 49 \<le> x / c * 2 ^ denorm" by simp
  from rnd_at_least[OF this] have al: "at_least (2 ^ 49 / 2 ^ denorm) (rnd (x / c))" .
  have "\<not> (2::rat) ^ 49 / 2 ^ denorm \<le> 0" by (simp add: divide_le_0_iff not_le)
  with al show ?thesis by (cases "rnd (x / c)") (auto simp del: divide_le_0_iff)
qed

subsection \<open>Whole floats\<close>

lemma whole_cases: "whole x \<Longrightarrow> x = PlusInf \<or> (\<exists>k. x = Finite (of_nat k))"
proof (cases x)
  case (Finite v)
  assume "whole x"
  with Finite have v: "0 \<le> v" "v = of_int \<lfloor>v\<rfloor>" by simp_all
  from v(1) have "0 \<le> \<lfloor>v\<rfloor>" by simp
  hence "(of_nat (nat \<lfloor>v\<rfloor>) :: rat) = of_int \<lfloor>v\<rfloor>" by (rule of_nat_nat)
  with v(2) have "v = of_nat (nat \<lfloor>v\<rfloor>)" by simp
  with Finite show ?thesis by blast
qed simp_all

lemma whole_of_nat: "whole (Finite (of_nat k))"
  by simp

lemma whole_rnd_nat: "whole (rnd (of_nat n))"
proof -
  have r: "rnd (of_nat n) = rnd_nonneg (of_nat n)" by (simp add: rnd_def)
  from rnd_nonneg_cases [of "of_nat n"] show ?thesis
  proof
    assume "rnd_nonneg (of_nat n) = PlusInf"
    with r show ?thesis by simp
  next
    assume "\<exists>v. rnd_nonneg (of_nat n) = Finite v"
    then obtain v where v: "rnd_nonneg (of_nat n) = Finite v" ..
    from rnd_whole[OF v] obtain k where "v = of_nat k" ..
    with v r show ?thesis by (simp del: of_nat_eq_iff)
  qed
qed

lemma rnd_nonneg_le: "0 \<le> q \<Longrightarrow> 0 \<le> rnd q"
proof -
  assume q: "0 \<le> q"
  from rnd_nonneg_cases [of q] show ?thesis
  proof
    assume "rnd_nonneg q = PlusInf"
    with q show ?thesis by (simp add: rnd_def zero_double_def)
  next
    assume "\<exists>v. rnd_nonneg q = Finite v"
    then obtain v where v: "rnd_nonneg q = Finite v" ..
    from rnd_nonneg_sign[OF q v] q v show ?thesis by (simp add: rnd_def zero_double_def)
  qed
qed

subsection \<open>Sums and quotients of floats that are 0 or at least one half\<close>

lemma fadd_zero_or_half:
  assumes "a = Finite 0 \<or> at_least (1 / 2) a" and "b = Finite 0 \<or> at_least (1 / 2) b"
  shows "(fadd a b = Finite 0 \<longleftrightarrow> a = Finite 0 \<and> b = Finite 0) \<and>
         (fadd a b = Finite 0 \<or> at_least (1 / 2) (fadd a b))"
proof (cases a)
  case fa: (Finite x)
  show ?thesis
  proof (cases b)
    case fb: (Finite y)
    from assms fa fb have xy: "x = 0 \<or> 1 / 2 \<le> x" "y = 0 \<or> 1 / 2 \<le> y" by simp_all
    show ?thesis
    proof (cases "x = 0 \<and> y = 0")
      case True
      with fa fb show ?thesis by (simp add: rnd_0)
    next
      case False
      with xy have "1 / 2 \<le> x + y" by auto
      from rnd_at_least_half[OF this] have al: "at_least (1 / 2) (rnd (x + y))" .
      hence "rnd (x + y) \<noteq> Finite 0" by (cases "rnd (x + y)") auto
      with al False fa fb show ?thesis by simp
    qed
  next
    case PlusInf
    with fa show ?thesis by simp
  next
    case MinusInf
    with assms show ?thesis by simp
  next
    case NaN
    with assms show ?thesis by simp
  qed
next
  case PlusInf
  with assms show ?thesis by (cases b) simp_all
next
  case MinusInf
  with assms show ?thesis by simp
next
  case NaN
  with assms show ?thesis by simp
qed

lemma foldl_fadd_zero_or_half:
  assumes "acc = Finite 0 \<or> at_least (1 / 2) acc"
    and "\<forall>x\<in>set xs. x = Finite 0 \<or> at_least (1 / 2) x"
  shows "(foldl fadd acc xs = Finite 0 \<longleftrightarrow> acc = Finite 0 \<and> (\<forall>x\<in>set xs. x = Finite 0)) \<and>
         (foldl fadd acc xs = Finite 0 \<or> at_least (1 / 2) (foldl fadd acc xs))"
  using assms
proof (induction xs arbitrary: acc)
  case Nil
  then show ?case by simp
next
  case (Cons x xs)
  from Cons.prems(2) have x: "x = Finite 0 \<or> at_least (1 / 2) x"
    and rest: "\<forall>x\<in>set xs. x = Finite 0 \<or> at_least (1 / 2) x" by simp_all
  note step = fadd_zero_or_half[OF Cons.prems(1) x]
  from step have "fadd acc x = Finite 0 \<or> at_least (1 / 2) (fadd acc x)" by blast
  from Cons.IH[OF this rest] step show ?case by auto
qed

lemma py_sum_zero_or_half:
  assumes "\<forall>x\<in>set xs. x = Finite 0 \<or> at_least (1 / 2) x"
  shows "(py_sum xs = Finite 0 \<longleftrightarrow> (\<forall>x\<in>set xs. x = Finite 0)) \<and>
         (py_sum xs = Finite 0 \<or> at_least (1 / 2) (py_sum xs))"
  using foldl_fadd_zero_or_half[OF _ assms, of "Finite 0"] by (auto simp: py_sum_def)

lemma truediv_int_divisor:
  assumes "truediv_int s n = Inr y"
  obtains c where "rnd (of_nat n) = Finite c" "y = fdiv s c" "1 \<le> c" "c < 2 ^ emax" "0 < n"
proof -
  from assms have n: "0 < n" by (simp add: truediv_int_def split: if_splits)
  with assms obtain c where c: "rnd (of_nat n) = Finite c" and y: "y = fdiv s c"
    by (auto simp: truediv_int_def split: double.splits)
  from n have "(1::rat) \<le> of_nat n" by simp
  from rnd_at_least_1[OF this] c have c1: "1 \<le> c" by simp
  from c have "rnd_nonneg (of_nat n) = Finite c" by (simp add: rnd_def)
  hence "c < 2 ^ emax" by (rule rnd_nonneg_below_emax)
  with c y c1 n that show thesis by blast
qed

lemma truediv_int_zero_iff:
  assumes "truediv_int s n = Inr y" and "s = Finite 0 \<or> at_least (1 / 2) s"
  shows "y = Finite 0 \<longleftrightarrow> s = Finite 0"
proof -
  from assms(1) obtain c where c: "y = fdiv s c" "1 \<le> c" "c < 2 ^ emax"
    by (rule truediv_int_divisor)
  show ?thesis
  proof (cases s)
    case (Finite x)
    with assms(2) have "x = 0 \<or> 1 / 2 \<le> x" by simp
    then show ?thesis
    proof
      assume "x = 0"
      with Finite c(1) show ?thesis by (simp add: rnd_0)
    next
      assume x: "1 / 2 \<le> x"
      from quotient_not_zero[OF x c(2,3)] x Finite c(1) show ?thesis by auto
    qed
  next
    case PlusInf
    with c(1) show ?thesis by simp
  next
    case MinusInf
    with assms(2) show ?thesis by simp
  next
    case NaN
    with assms(2) show ?thesis by simp
  qed
qed

subsection \<open>Sums of halves that need no rounding\<close>

lemma foldl_fadd_halves:
  assumes "A + sum_list hs < 2 ^ 53"
  shows "foldl fadd (Finite (of_nat A / 2)) (map (\<lambda>h. Finite (of_nat h / 2)) hs) =
         Finite (of_nat (A + sum_list hs) / 2)"
  using assms
proof (induction hs arbitrary: A)
  case Nil
  then show ?case by simp
next
  case (Cons h hs)
  from Cons.prems have small: "A + h < 2 ^ 53" and rest: "(A + h) + sum_list hs < 2 ^ 53"
    by simp_all
  have e: "(of_nat A :: rat) / 2 + of_nat h / 2 = of_nat (A + h) / 2" by (simp add: add_divide_distrib)
  have "fadd (Finite (of_nat A / 2)) (Finite (of_nat h / 2)) = rnd (of_nat A / 2 + of_nat h / 2)"
    by simp
  also have "\<dots> = rnd (of_nat (A + h) / 2)" by (simp only: e)
  also have "\<dots> = Finite (of_nat (A + h) / 2)" by (rule rnd_small_half[OF small])
  finally have "fadd (Finite (of_nat A / 2)) (Finite (of_nat h / 2)) = Finite (of_nat (A + h) / 2)" .
  with Cons.IH[OF rest] show ?case by (simp add: add.assoc del: fadd.simps of_nat_add)
qed

lemma py_sum_halves:
  assumes "sum_list hs < 2 ^ 53"
  shows "py_sum (map (\<lambda>h. Finite (of_nat h / 2)) hs) = Finite (of_nat (sum_list hs) / 2)"
  using foldl_fadd_halves [of 0 hs] assms by (simp add: py_sum_def)

lemma member_le_sum_list_rat:
  fixes xs :: "rat list"
  assumes "\<forall>x\<in>set xs. 0 \<le> x" and "a \<in> set xs"
  shows "a \<le> sum_list xs"
  using assms
proof (induction xs)
  case Nil
  then show ?case by simp
next
  case (Cons x xs)
  from Cons.prems(1) have "0 \<le> sum_list xs" by (intro sum_list_nonneg) simp
  moreover from Cons.prems(1) have "0 \<le> x" by simp
  ultimately show ?case using Cons by auto
qed

section \<open>Properties of the rainfall parser\<close>

lemmas regex_eval = match_at_def groups_def seqs_def alts_def unit_mm_def region_name_def
  isspace_def isdecimal_def decimal_def decimal_zeros_def pattern1_def pattern2_def pattern3_def
  named_districts_def

lemmas rain_eval = fetch_rainfall_data_def patterns_def store_match_def py_float_def strip_def
  Let_def float_eval

subsection \<open>Every stored reading comes from a match\<close>

lemma findall_length: "m \<in> set (findall r ns s) \<Longrightarrow> length m = length ns"
proof (induction r ns s rule: findall.induct)
  case (1 r n)
  then show ?case by (auto simp: groups_def split: option.splits)
next
  case (2 r n x xs)
  show ?case
  proof (cases "match_at r (x # xs)")
    case None
    with 2 show ?thesis by simp
  next
    case (Some p)
    obtain s' c where p: "p = (s', c)" by (cases p)
    show ?thesis
    proof (cases "length s' < Suc (length xs)")
      case True
      with 2 Some p show ?thesis by (auto simp: groups_def)
    next
      case False
      with 2 Some p show ?thesis by (auto simp: groups_def)
    qed
  qed
qed

lemma all_matches_length: "m \<in> set (all_matches t) \<Longrightarrow> length m = 2 \<or> length m = 3"
  by (auto simp: all_matches_def patterns_def dest: findall_length)

lemma set_update_cases:
  "(k', v') \<in> set (AList.update k v al) \<Longrightarrow> (k', v') \<in> set al \<or> (k' = k \<and> v' = v)"
  by (induction al) (auto split: if_splits)

lemma store_match_origin:
  assumes "store_match regs m = Inr regs'" "(k, v) \<in> set regs'"
  shows "(k, v) \<in> set regs \<or> (k = strip (hd m) \<and> reading_of m = Inr v)"
  using assms
  by (auto simp: store_match_def split: if_splits sum.splits dest: set_update_cases)

lemma store_matches_origin:
  "store_matches regs mms = Inr regs' \<Longrightarrow> (k, v) \<in> set regs' \<Longrightarrow>
   (k, v) \<in> set regs \<or> (\<exists>m\<in>set mms. k = strip (hd m) \<and> reading_of m = Inr v)"
proof (induction mms arbitrary: regs)
  case Nil then show ?case by simp
next
  case (Cons m mms)
  then obtain r1 where r1: "store_match regs m = Inr r1" "store_matches r1 mms = Inr regs'"
    by (auto split: sum.splits)
  from Cons.IH[OF r1(2) Cons.prems(2)] store_match_origin[OF r1(1)]
  show ?case by auto
qed

lemma apply_patterns_origin:
  "apply_patterns regs ps t = Inr regs' \<Longrightarrow> (k, v) \<in> set regs' \<Longrightarrow>
   (k, v) \<in> set regs \<or>
   (\<exists>m\<in>set (concat (map (\<lambda>(p, ns). findall p ns t) ps)). k = strip (hd m) \<and> reading_of m = Inr v)"
proof (induction regs ps t rule: apply_patterns.induct)
  case (1 regs t) then show ?case by simp
next
  case (2 regs p ns ps t)
  then obtain r1 where r1: "store_matches regs (findall p ns t) = Inr r1"
      "apply_patterns r1 ps t = Inr regs'"
    by (auto split: sum.splits)
  from 2(1)[OF r1(1) r1(2) 2(3)] store_matches_origin[OF r1(1)]
  show ?case by auto
qed

subsection \<open>The value under a key is that of the last match for it\<close>

lemma last_match_for_Nil: "last_match_for k [] = None"
  by (simp add: last_match_for_def)

lemma last_match_for_Cons:
  "last_match_for k (m # mms) =
     (case last_match_for k mms of
        Some m' \<Rightarrow> Some m'
      | None \<Rightarrow> if strip (hd m) = k then Some m else None)"
  by (auto simp: last_match_for_def split: list.splits)

lemma last_match_for_append:
  "last_match_for k (xs @ ys) =
     (case last_match_for k ys of Some m \<Rightarrow> Some m | None \<Rightarrow> last_match_for k xs)"
  by (induction xs) (auto simp: last_match_for_Cons last_match_for_Nil split: option.splits)

lemma stored_for_append:
  "stored_for k (xs @ ys) d = stored_for k ys (stored_for k xs d)"
  by (auto simp: stored_for_def last_match_for_append split: option.splits)

lemma store_match_lookup:
  assumes "store_match regs m = Inr regs'" "length m = 2 \<or> length m = 3"
  shows "map_of regs' k = stored_for k [m] (map_of regs k)"
proof (cases "reading_of m")
  case (Inl e)
  with assms show ?thesis by (simp add: store_match_def split: if_splits)
next
  case (Inr v)
  with assms have "regs' = AList.update (strip (hd m)) v regs"
    by (simp add: store_match_def split: if_splits)
  with Inr show ?thesis
    by (simp add: stored_for_def last_match_for_Cons last_match_for_Nil AList.update_conv')
qed

lemma store_matches_lookup:
  "store_matches regs mms = Inr regs' \<Longrightarrow> \<forall>m\<in>set mms. length m = 2 \<or> length m = 3 \<Longrightarrow>
   map_of regs' k = stored_for k mms (map_of regs k)"
proof (induction mms arbitrary: regs)
  case Nil
  then show ?case by (simp add: stored_for_def last_match_for_Nil)
next
  case (Cons m mms)
  then obtain r1 where r1: "store_match regs m = Inr r1" "store_matches r1 mms = Inr regs'"
    by (auto split: sum.splits)
  have "map_of regs' k = stored_for k mms (map_of r1 k)"
    using Cons.IH[OF r1(2)] Cons.prems(2) by simp
  also have "map_of r1 k = stored_for k [m] (map_of regs k)"
    using store_match_lookup[OF r1(1)] Cons.prems(2) by simp
  finally show ?case
    using stored_for_append[of k "[m]" mms] by simp
qed

lemma apply_patterns_lookup:
  "apply_patterns regs ps t = Inr regs' \<Longrightarrow>
   \<forall>m\<in>set (concat (map (\<lambda>(p, ns). findall p ns t) ps)). length m = 2 \<or> length m = 3 \<Longrightarrow>
   map_of regs' k = stored_for k (concat (map (\<lambda>(p, ns). findall p ns t) ps)) (map_of regs k)"
proof (induction regs ps t rule: apply_patterns.induct)
  case (1 regs t)
  then show ?case by (simp add: stored_for_def last_match_for_Nil)
next
  case (2 regs p ns ps t)
  then obtain r1 where r1: "store_matches regs (findall p ns t) = Inr r1"
      "apply_patterns r1 ps t = Inr regs'"
    by (auto split: sum.splits)
  have a: "map_of r1 k = stored_for k (findall p ns t) (map_of regs k)"
    using store_matches_lookup[OF r1(1)] 2(3) by simp
  have b: "map_of regs' k = stored_for k (concat (map (\<lambda>(p, ns). findall p ns t) ps)) (map_of r1 k)"
    using 2(1)[OF r1(1) r1(2)] 2(3) by simp
  show ?case using a b by (simp add: stored_for_append)
qed

lemma fetch_rainfall_data_regions:
  assumes "fetch_rainfall_data now (Ok t) = Data r"
  shows "apply_patterns [] patterns t = Inr (regions r)"
  using assms by (auto simp: fetch_rainfall_data_def split: sum.splits if_splits)

lemma regions_lookup:
  assumes "fetch_rainfall_data now (Ok t) = Data r"
  shows "map_of (regions r) k = stored_for k (all_matches t) None"
proof -
  have "\<forall>m\<in>set (concat (map (\<lambda>(p, ns). findall p ns t) patterns)). length m = 2 \<or> length m = 3"
    using all_matches_length[of _ t] by (auto simp: all_matches_def)
  from apply_patterns_lookup[OF fetch_rainfall_data_regions[OF assms] this, of k]
  show ?thesis by (simp add: all_matches_def)
qed

lemma store_match_distinct:
  "store_match regs m = Inr regs' \<Longrightarrow> distinct (map fst regs) \<Longrightarrow> distinct (map fst regs')"
  by (auto simp: store_match_def AList.distinct_update split: if_splits sum.splits)

lemma store_matches_distinct:
  "store_matches regs mms = Inr regs' \<Longrightarrow> distinct (map fst regs) \<Longrightarrow> distinct (map fst regs')"
  by (induction mms arbitrary: regs) (auto split: sum.splits dest: store_match_distinct)

lemma apply_patterns_distinct:
  "apply_patterns regs ps t = Inr regs' \<Longrightarrow> distinct (map fst regs) \<Longrightarrow> distinct (map fst regs')"
  by (induction regs ps t rule: apply_patterns.induct)
     (auto split: sum.splits dest: store_matches_distinct)

lemma regions_distinct:
  "fetch_rainfall_data now (Ok t) = Data r \<Longrightarrow> distinct (map fst (regions r))"
  using apply_patterns_distinct[OF fetch_rainfall_data_regions, of now t r] by simp

subsection \<open>Sums over the dictionary\<close>

lemma sum_list_map_of:
  "distinct (map fst regs) \<Longrightarrow>
   sum_list (map (\<lambda>(k, v). f v) regs) = (\<Sum>k\<in>dom (map_of regs). f (the (map_of regs k)))"
proof (induction regs)
  case Nil then show ?case by simp
next
  case (Cons p regs)
  obtain k v where p: "p = (k, v)" by (cases p)
  let ?m = "map_of regs" and ?m' = "map_of (p # regs)"
  from Cons.prems p have k: "k \<notin> dom ?m" and d: "distinct (map fst regs)"
    by (auto simp: dom_map_of_conv_image_fst)
  have dom: "dom ?m' = insert k (dom ?m)"
    using p by auto
  have same: "(\<Sum>k'\<in>dom ?m. f (the (?m' k'))) = (\<Sum>k'\<in>dom ?m. f (the (?m k')))"
    using k p by (intro sum.cong) auto
  have "(\<Sum>k'\<in>dom ?m'. f (the (?m' k'))) = f (the (?m' k)) + (\<Sum>k'\<in>dom ?m. f (the (?m' k')))"
    unfolding dom using k by (intro sum.insert) (simp_all add: finite_dom_map_of)
  also have "\<dots> = f v + (\<Sum>k'\<in>dom ?m. f (the (?m k')))"
    using same p by simp
  also have "\<dots> = sum_list (map (\<lambda>(k, v). f v) (p # regs))"
    using Cons.IH[OF d] p by simp
  finally show ?case by (rule sym)
qed

lemma card_dom_map_of:
  "distinct (map fst regs) \<Longrightarrow> card (dom (map_of regs)) = length regs"
  by (simp add: dom_map_of_conv_image_fst distinct_card flip: set_map)

subsection \<open>\<open>float\<close> accepts every captured number\<close>

lemma greedy_split:
  "s' \<in> set (greedy k s) \<Longrightarrow> \<exists>p. s = p @ s' \<and> list_all (cls_matches k) p"
proof (induction s)
  case Nil then show ?case by simp
next
  case (Cons x xs)
  show ?case
  proof (cases "s' = x # xs")
    case True then show ?thesis by simp
  next
    case False
    with Cons.prems have x: "cls_matches k x" and "s' \<in> set (greedy k xs)"
      by (auto split: if_splits)
    with Cons.IH obtain p where "xs = p @ s'" "list_all (cls_matches k) p" by blast
    with x have "x # xs = (x # p) @ s' \<and> list_all (cls_matches k) (x # p)" by simp
    then show ?thesis by blast
  qed
qed

lemma plus_capture:
  assumes "(s', c') \<in> set (ms (Plus k) s c)"
  shows "c' = c \<and> take (length s - length s') s \<noteq> [] \<and>
         list_all (cls_matches k) (take (length s - length s') s)"
proof -
  from assms obtain x xs where s: "s = x # xs" and x: "cls_matches k x"
      and g: "s' \<in> set (greedy k xs)" and c: "c' = c"
    by (cases s) (auto split: if_splits)
  from greedy_split[OF g] obtain p where p: "xs = p @ s'" "list_all (cls_matches k) p" by blast
  have "take (length s - length s') s = x # p"
    using s p(1) by simp
  with x p(2) c show ?thesis by simp
qed

lemma ms_Seq_elim:
  assumes "(s', c') \<in> set (ms (Seq a b) s c)"
  obtains s1 c1 where "(s1, c1) \<in> set (ms a s c)" "(s', c') \<in> set (ms b s1 c1)"
proof -
  from assms obtain x where x: "x \<in> set (ms a s c)"
      and in_b: "(s', c') \<in> set (case x of (s1, c1) \<Rightarrow> ms b s1 c1)"
    unfolding ms.simps set_concat set_map by blast
  obtain s1 c1 where "x = (s1, c1)" by (cases x)
  with x in_b that show thesis by simp
qed

lemma ms_Group_elim:
  assumes "(s', c') \<in> set (ms (Group n r) s c)"
  obtains c1 where "(s', c1) \<in> set (ms r s c)" "c' = c1(n \<mapsto> take (length s - length s') s)"
proof -
  from assms obtain x where x: "x \<in> set (ms r s c)"
      and eq: "(s', c') = (case x of (s1, c1) \<Rightarrow> (s1, c1(n \<mapsto> take (length s - length s1) s)))"
    unfolding ms.simps set_map by blast
  obtain s1 c1 where "x = (s1, c1)" by (cases x)
  with x eq that show thesis by simp
qed

lemma cls_matches_Digit: "cls_matches Digit = isdecimal"
  by (rule ext) simp

lemma ms_unchanged:
  "(s', c') \<in> set (ms Eps s c) \<Longrightarrow> c' = c"
  "(s', c') \<in> set (ms (Class k) s c) \<Longrightarrow> c' = c"
  "(s', c') \<in> set (ms (Lit l) s c) \<Longrightarrow> c' = c"
  "(s', c') \<in> set (ms (Star k) s c) \<Longrightarrow> c' = c"
  "(s', c') \<in> set (ms (Plus k) s c) \<Longrightarrow> c' = c"
proof -
  show "(s', c') \<in> set (ms Eps s c) \<Longrightarrow> c' = c" by simp
  show "(s', c') \<in> set (ms (Class k) s c) \<Longrightarrow> c' = c"
    by (cases s) (simp_all split: if_splits)
  show "(s', c') \<in> set (ms (Lit l) s c) \<Longrightarrow> c' = c" by (simp split: if_splits)
  show "(s', c') \<in> set (ms (Star k) s c) \<Longrightarrow> c' = c" by auto
  show "(s', c') \<in> set (ms (Plus k) s c) \<Longrightarrow> c' = c" by (simp add: plus_capture)
qed

lemma ms_Opt_cases:
  "(s', c') \<in> set (ms (Opt r) s c) \<Longrightarrow> (s', c') \<in> set (ms r s c) \<or> c' = c"
  by auto

lemma ms_Alt_cases:
  "(s', c') \<in> set (ms (Alt a b) s c) \<Longrightarrow> (s', c') \<in> set (ms a s c) \<or> (s', c') \<in> set (ms b s c)"
  by simp

lemma ms_digit_caps:
  "digit_groups r \<Longrightarrow> digit_caps c \<Longrightarrow> (s', c') \<in> set (ms r s c) \<Longrightarrow> digit_caps c'"
proof (induction r arbitrary: s c s' c')
  case Eps
  then show ?case using ms_unchanged(1) by blast
next
  case (Class k)
  then show ?case using ms_unchanged(2) by blast
next
  case (Lit l)
  then show ?case using ms_unchanged(3) by blast
next
  case (Star k)
  then show ?case using ms_unchanged(4) by blast
next
  case (Plus k)
  then show ?case using ms_unchanged(5) by blast
next
  case (Opt r)
  from Opt.prems(1) have d: "digit_groups r" by simp
  from ms_Opt_cases[OF Opt.prems(3)] Opt.IH[OF d Opt.prems(2)] Opt.prems(2)
  show ?case by blast
next
  case (Alt a b)
  from Alt.prems(1) have d: "digit_groups a" "digit_groups b" by simp_all
  from ms_Alt_cases[OF Alt.prems(3)] Alt.IH(1)[OF d(1) Alt.prems(2)] Alt.IH(2)[OF d(2) Alt.prems(2)]
  show ?case by blast
next
  case (Group n r)
  from Group.prems(3) obtain c1 where c1: "(s', c1) \<in> set (ms r s c)"
      and c': "c' = c1(n \<mapsto> take (length s - length s') s)"
    by (rule ms_Group_elim)
  show ?case
  proof (cases "n = 2 \<or> n = 3")
    case True
    with Group.prems(1) have r: "r = Plus Digit" by simp
    from plus_capture[OF c1[unfolded r]]
    have c1c: "c1 = c" and ne: "take (length s - length s') s \<noteq> []"
      and dg: "list_all isdecimal (take (length s - length s') s)"
      by (simp_all add: cls_matches_Digit)
    show ?thesis
      unfolding digit_caps_def
    proof (intro allI impI)
      fix m d assume a: "(m = 2 \<or> m = 3) \<and> c' m = Some d"
      show "d \<noteq> [] \<and> list_all isdecimal d"
      proof (cases "m = n")
        case True
        with a c' have "d = take (length s - length s') s" by simp
        with ne dg show ?thesis by simp
      next
        case False
        with a c' c1c have "c m = Some d" by simp
        with a Group.prems(2) show ?thesis unfolding digit_caps_def by blast
      qed
    qed
  next
    case False
    with Group.prems(1) have "digit_groups r" by simp
    from Group.IH[OF this Group.prems(2) c1] have dc: "digit_caps c1" .
    show ?thesis
      unfolding digit_caps_def
    proof (intro allI impI)
      fix m d assume a: "(m = 2 \<or> m = 3) \<and> c' m = Some d"
      with False have "m \<noteq> n" by auto
      with a c' have "c1 m = Some d" by simp
      with a dc show "d \<noteq> [] \<and> list_all isdecimal d" unfolding digit_caps_def by blast
    qed
  qed
next
  case (Seq a b)
  from Seq.prems(3) obtain s1 c1 where m: "(s1, c1) \<in> set (ms a s c)" "(s', c') \<in> set (ms b s1 c1)"
    by (rule ms_Seq_elim)
  from Seq.prems(1) have da: "digit_groups a" and db: "digit_groups b" by simp_all
  from Seq.IH(2)[OF db Seq.IH(1)[OF da Seq.prems(2) m(1)] m(2)] show ?case .
qed

lemma ms_keeps_group:
  "(s', c') \<in> set (ms r s c) \<Longrightarrow> c n \<noteq> None \<Longrightarrow> c' n \<noteq> None"
proof (induction r arbitrary: s c s' c')
  case Eps
  then show ?case using ms_unchanged(1) by blast
next
  case (Class k)
  then show ?case using ms_unchanged(2) by blast
next
  case (Lit l)
  then show ?case using ms_unchanged(3) by blast
next
  case (Star k)
  then show ?case using ms_unchanged(4) by blast
next
  case (Plus k)
  then show ?case using ms_unchanged(5) by blast
next
  case (Opt r)
  from ms_Opt_cases[OF Opt.prems(1)] Opt.IH Opt.prems(2) show ?case by blast
next
  case (Alt a b)
  from ms_Alt_cases[OF Alt.prems(1)] Alt.IH Alt.prems(2) show ?case by blast
next
  case (Group m r)
  from Group.prems(1) obtain c1 where c1: "(s', c1) \<in> set (ms r s c)"
      and c': "c' = c1(m \<mapsto> take (length s - length s') s)"
    by (rule ms_Group_elim)
  from Group.IH[OF c1 Group.prems(2)] c' show ?case by simp
next
  case (Seq a b)
  from Seq.prems(1) obtain s1 c1 where m: "(s1, c1) \<in> set (ms a s c)" "(s', c') \<in> set (ms b s1 c1)"
    by (rule ms_Seq_elim)
  from Seq.IH(2)[OF m(2) Seq.IH(1)[OF m(1) Seq.prems(2)]] show ?case .
qed

lemma ms_sets_group:
  "sets_group n r \<Longrightarrow> (s', c') \<in> set (ms r s c) \<Longrightarrow> c' n \<noteq> None"
proof (induction r arbitrary: s c s' c')
  case (Alt a b)
  from Alt.prems(1) have d: "sets_group n a" "sets_group n b" by simp_all
  from ms_Alt_cases[OF Alt.prems(2)] Alt.IH(1)[OF d(1)] Alt.IH(2)[OF d(2)] show ?case by blast
next
  case (Group m r)
  from Group.prems(2) obtain c1 where c1: "(s', c1) \<in> set (ms r s c)"
      and c': "c' = c1(m \<mapsto> take (length s - length s') s)"
    by (rule ms_Group_elim)
  show ?case
  proof (cases "m = n")
    case True
    with c' show ?thesis by simp
  next
    case False
    with Group.prems(1) have "sets_group n r" by simp
    from Group.IH[OF this c1] c' show ?thesis by simp
  qed
next
  case (Seq a b)
  from Seq.prems(2) obtain s1 c1 where m: "(s1, c1) \<in> set (ms a s c)" "(s', c') \<in> set (ms b s1 c1)"
    by (rule ms_Seq_elim)
  from Seq.prems(1) consider "sets_group n a" | "sets_group n b" by auto
  then show ?case
  proof cases
    case 1
    from ms_keeps_group[OF m(2) Seq.IH(1)[OF 1 m(1)]] show ?thesis .
  next
    case 2
    from Seq.IH(2)[OF 2 m(2)] show ?thesis .
  qed
qed simp_all

lemma match_at_in_ms: "match_at r s = Some (s', c) \<Longrightarrow> (s', c) \<in> set (ms r s Map.empty)"
  by (cases "ms r s Map.empty") (simp_all add: match_at_def)

lemma findall_elems:
  "m \<in> set (findall r ns s) \<Longrightarrow> \<exists>s0 s' c. (s', c) \<in> set (ms r s0 Map.empty) \<and> m = groups ns c"
proof (induction r ns s rule: findall.induct)
  case (1 r n)
  show ?case
  proof (cases "match_at r []")
    case None
    with 1 show ?thesis by simp
  next
    case (Some p)
    obtain s' c where p: "p = (s', c)" by (cases p)
    from 1 Some p have "m = groups n c" by simp
    with match_at_in_ms[OF Some[unfolded p]] show ?thesis by blast
  qed
next
  case (2 r n x xs)
  show ?case
  proof (cases "match_at r (x # xs)")
    case None
    with 2 show ?thesis by simp
  next
    case (Some p)
    obtain s' c where p: "p = (s', c)" by (cases p)
    note in_ms = match_at_in_ms[OF Some[unfolded p]]
    show ?thesis
    proof (cases "m = groups n c")
      case True
      with in_ms show ?thesis by blast
    next
      case False
      show ?thesis
      proof (cases "length s' < Suc (length xs)")
        case True
        with 2(4) Some p False have "m \<in> set (findall r n s')" by simp
        from 2(2)[OF Some[unfolded p] refl True this] show ?thesis .
      next
        case nlt: False
        with 2(4) Some p False have "m \<in> set (findall r n xs)" by simp
        from 2(3)[OF Some[unfolded p] refl nlt this] show ?thesis .
      qed
    qed
  qed
qed

lemma digits_value_Some:
  "list_all isdecimal d \<Longrightarrow> \<exists>n. digits_value acc d = Some n"
  by (induction d arbitrary: acc) (auto simp: isdecimal_def)

lemma py_float_digits:
  assumes "d \<noteq> []" "list_all isdecimal d"
  shows "\<exists>v. py_float d = Some v"
proof -
  from assms(2) have all: "\<forall>x\<in>set d. isdecimal x" by (simp add: list_all_iff)
  then have t: "takeWhile isdecimal d = d" and r: "dropWhile isdecimal d = []"
    by simp_all
  from digits_value_Some[OF assms(2), of 0] obtain n where "digits_value 0 d = Some n" ..
  then show ?thesis
    unfolding py_float_def Let_def t r using assms(1) by simp
qed

lemma digit_caps_empty: "digit_caps Map.empty"
  by (simp add: digit_caps_def)

lemma reading_of_groups2:
  assumes "digit_caps c" "c 2 \<noteq> None"
  shows "\<exists>v. reading_of (groups [1, 2] c) = Inr v"
proof -
  from assms obtain d where d: "c 2 = Some d" "d \<noteq> []" "list_all isdecimal d"
    by (auto simp: digit_caps_def)
  from py_float_digits[OF d(2,3)] obtain v where "py_float d = Some v" ..
  with d(1) show ?thesis by (simp add: groups_def)
qed

lemma reading_of_groups3:
  assumes "digit_caps c" "c 2 \<noteq> None"
  shows "\<exists>v. reading_of (groups [1, 2, 3] c) = Inr v"
proof -
  from assms obtain d where d: "c 2 = Some d" "d \<noteq> []" "list_all isdecimal d"
    by (auto simp: digit_caps_def)
  from py_float_digits[OF d(2,3)] obtain lo where lo: "py_float d = Some lo" ..
  show ?thesis
  proof (cases "c 3")
    case None
    with d(1) lo show ?thesis by (simp add: groups_def)
  next
    case (Some e)
    with assms(1) have e: "e \<noteq> []" "list_all isdecimal e"
      by (auto simp: digit_caps_def)
    from py_float_digits[OF e] obtain hi where "py_float e = Some hi" ..
    with Some d(1) lo e(1) show ?thesis by (simp add: groups_def)
  qed
qed

lemma patterns_digit_groups:
  "digit_groups pattern1" "digit_groups pattern2" "digit_groups pattern3"
  by (simp_all add: pattern1_def pattern2_def pattern3_def region_name_def unit_mm_def
        seqs_def alts_def named_districts_def)

lemma patterns_set_group2:
  "sets_group 2 pattern1" "sets_group 2 pattern2" "sets_group 2 pattern3"
  by (simp_all add: pattern1_def pattern2_def pattern3_def region_name_def unit_mm_def
        seqs_def alts_def named_districts_def)

lemma all_matches_readable:
  assumes "m \<in> set (all_matches t)"
  shows "\<exists>v. reading_of m = Inr v"
proof -
  from assms consider "m \<in> set (findall pattern1 [1, 2] t)"
    | "m \<in> set (findall pattern2 [1, 2, 3] t)" | "m \<in> set (findall pattern3 [1, 2, 3] t)"
    by (auto simp: all_matches_def patterns_def)
  then show ?thesis
  proof cases
    case 1
    from findall_elems[OF 1] obtain s0 s' c where
      c: "(s', c) \<in> set (ms pattern1 s0 Map.empty)" "m = groups [1, 2] c" by blast
    show ?thesis
      unfolding c(2)
      by (rule reading_of_groups2[OF ms_digit_caps[OF patterns_digit_groups(1) digit_caps_empty c(1)]
            ms_sets_group[OF patterns_set_group2(1) c(1)]])
  next
    case 2
    from findall_elems[OF 2] obtain s0 s' c where
      c: "(s', c) \<in> set (ms pattern2 s0 Map.empty)" "m = groups [1, 2, 3] c" by blast
    show ?thesis
      unfolding c(2)
      by (rule reading_of_groups3[OF ms_digit_caps[OF patterns_digit_groups(2) digit_caps_empty c(1)]
            ms_sets_group[OF patterns_set_group2(2) c(1)]])
  next
    case 3
    from findall_elems[OF 3] obtain s0 s' c where
      c: "(s', c) \<in> set (ms pattern3 s0 Map.empty)" "m = groups [1, 2, 3] c" by blast
    show ?thesis
      unfolding c(2)
      by (rule reading_of_groups3[OF ms_digit_caps[OF patterns_digit_groups(3) digit_caps_empty c(1)]
            ms_sets_group[OF patterns_set_group2(3) c(1)]])
  qed
qed

lemma store_match_total:
  "\<exists>v. reading_of m = Inr v \<Longrightarrow> \<exists>regs'. store_match regs m = Inr regs'"
  by (auto simp: store_match_def)

lemma store_matches_total:
  "\<forall>m\<in>set mms. \<exists>v. reading_of m = Inr v \<Longrightarrow> \<exists>regs'. store_matches regs mms = Inr regs'"
proof (induction mms arbitrary: regs)
  case Nil then show ?case by simp
next
  case (Cons m mms)
  from Cons.prems have "\<exists>v. reading_of m = Inr v" by simp
  from store_match_total[OF this] obtain r1 where r1: "store_match regs m = Inr r1" ..
  from Cons.prems have "\<forall>m\<in>set mms. \<exists>v. reading_of m = Inr v" by simp
  from Cons.IH[OF this, of r1] r1 show ?case by simp
qed

lemma apply_patterns_total:
  "\<forall>m\<in>set (concat (map (\<lambda>(p, ns). findall p ns t) ps)). \<exists>v. reading_of m = Inr v \<Longrightarrow>
   \<exists>regs'. apply_patterns regs ps t = Inr regs'"
proof (induction regs ps t rule: apply_patterns.induct)
  case (1 regs t) then show ?case by simp
next
  case (2 regs p ns ps t)
  from 2(2) have "\<forall>m\<in>set (findall p ns t). \<exists>v. reading_of m = Inr v" by simp
  from store_matches_total[OF this] obtain r1 where r1: "store_matches regs (findall p ns t) = Inr r1" ..
  from 2(2) have "\<forall>m\<in>set (concat (map (\<lambda>(p, ns). findall p ns t) ps)). \<exists>v. reading_of m = Inr v"
    by simp
  from 2(1)[OF r1 this] r1 show ?case by simp
qed

subsection \<open>The number of regions, and the division by it\<close>

lemma findall_count: "length (findall r ns s) \<le> Suc (length s)"
proof (induction r ns s rule: findall.induct)
  case (1 r n)
  then show ?case by (simp split: option.splits)
next
  case (2 r n x xs)
  show ?case
  proof (cases "match_at r (x # xs)")
    case None
    with 2(1) show ?thesis by simp
  next
    case (Some p)
    obtain s' c where p: "p = (s', c)" by (cases p)
    show ?thesis
    proof (cases "length s' < Suc (length xs)")
      case True
      from 2(2)[OF Some[unfolded p] refl True] have "length (findall r n s') \<le> Suc (length s')" .
      with True Some p show ?thesis by simp
    next
      case False
      from 2(3)[OF Some[unfolded p] refl False] have "length (findall r n xs) \<le> Suc (length xs)" .
      with False Some p show ?thesis by simp
    qed
  qed
qed

lemma update_length: "length (AList.update k v al) \<le> Suc (length al)"
  by (induction al) auto

lemma store_match_count:
  "store_match regs m = Inr regs' \<Longrightarrow> length regs' \<le> Suc (length regs)"
  using update_length [of "strip (hd m)" _ regs]
  by (auto simp: store_match_def split: if_splits sum.splits)

lemma store_matches_count:
  "store_matches regs mms = Inr regs' \<Longrightarrow> length regs' \<le> length regs + length mms"
proof (induction mms arbitrary: regs)
  case Nil then show ?case by simp
next
  case (Cons m mms)
  then obtain r1 where r1: "store_match regs m = Inr r1" "store_matches r1 mms = Inr regs'"
    by (auto split: sum.splits)
  from Cons.IH[OF r1(2)] store_match_count[OF r1(1)] show ?case by simp
qed

lemma apply_patterns_count:
  "apply_patterns regs ps t = Inr regs' \<Longrightarrow>
   length regs' \<le> length regs + length (concat (map (\<lambda>(p, ns). findall p ns t) ps))"
proof (induction regs ps t rule: apply_patterns.induct)
  case (1 regs t) then show ?case by simp
next
  case (2 regs p ns ps t)
  then obtain r1 where r1: "store_matches regs (findall p ns t) = Inr r1"
      "apply_patterns r1 ps t = Inr regs'"
    by (auto split: sum.splits)
  from 2(1)[OF r1(1) r1(2)] store_matches_count[OF r1(1)] show ?case by simp
qed

lemma regions_count:
  assumes "apply_patterns [] patterns t = Inr regs"
  shows "length regs \<le> 3 * Suc (length t)"
proof -
  have "length (concat (map (\<lambda>(p, ns). findall p ns t) patterns)) \<le> 3 * Suc (length t)"
    using findall_count [of pattern1 "[1, 2]" t] findall_count [of pattern2 "[1, 2, 3]" t]
      findall_count [of pattern3 "[1, 2, 3]" t]
    by (simp add: patterns_def)
  with apply_patterns_count[OF assms] show ?thesis by simp
qed

lemma rnd_count:
  assumes "0 < n" and "n < 2 ^ 66"
  shows "\<exists>c. rnd (of_nat n) = Finite c \<and> 1 \<le> c"
proof -
  have one: "(1::rat) \<le> of_nat n" using assms(1) by simp
  have "2 * n < 2 ^ 67" using assms(2) by simp
  hence "(of_nat (2 * n) :: rat) < of_nat (2 ^ 67)" by (simp only: of_nat_less_iff)
  hence "2 * (of_nat n :: rat) < 2 ^ 67" by simp
  moreover have "(2::rat) ^ 67 \<le> 2 ^ emax" by (rule power_increasing) (simp_all add: emax_def)
  ultimately have "2 * (of_nat n :: rat) < 2 ^ emax" by linarith
  from rnd_finite[OF one this] show ?thesis by (simp add: rnd_def)
qed

lemma truediv_int_total:
  assumes "0 < n" and "n < 2 ^ 66"
  shows "\<exists>y. truediv_int x n = Inr y"
proof -
  from rnd_count[OF assms] obtain c where "rnd (of_nat n) = Finite c" by blast
  with assms(1) show ?thesis by (simp add: truediv_int_def)
qed

lemma fetch_rainfall_data_total:
  assumes "length t \<le> maxsize"
  shows "\<exists>r. fetch_rainfall_data now (Ok t) = Data r"
proof -
  have "\<forall>m\<in>set (concat (map (\<lambda>(p, ns). findall p ns t) patterns)). \<exists>v. reading_of m = Inr v"
    using all_matches_readable[of _ t] by (simp add: all_matches_def)
  from apply_patterns_total[OF this, of "[]"] obtain regs where
    regs: "apply_patterns [] patterns t = Inr regs" ..
  show ?thesis
  proof (cases "regs = []")
    case True
    with regs show ?thesis by (simp add: fetch_rainfall_data_def)
  next
    case False
    hence pos: "0 < length regs" by simp
    from regions_count[OF regs] assms have "length regs \<le> 3 * Suc maxsize" by simp
    hence "length regs < 2 ^ 66" by (simp add: maxsize_def)
    from truediv_int_total[OF pos this] obtain y where
      "truediv_int (py_sum (map (\<lambda>(k, v). average_rainfall v) regs)) (length regs) = Inr y" ..
    with regs False show ?thesis by (simp add: fetch_rainfall_data_def)
  qed
qed

subsection \<open>What the readings hold\<close>

lemma py_float_digits_rnd:
  assumes "d \<noteq> []" "list_all isdecimal d"
  shows "\<exists>n. py_float d = Some (rnd (of_nat n))"
proof -
  from assms(2) have all: "\<forall>x\<in>set d. isdecimal x" by (simp add: list_all_iff)
  then have t: "takeWhile isdecimal d = d" and r: "dropWhile isdecimal d = []"
    by simp_all
  from digits_value_Some[OF assms(2), of 0] obtain n where "digits_value 0 d = Some n" ..
  then have "py_float d = Some (rnd (of_nat n))"
    unfolding py_float_def Let_def t r using assms(1) by simp
  then show ?thesis ..
qed

lemma py_float_nonneg:
  assumes "py_float s = Some v"
  shows "0 \<le> v"
proof (cases "dropWhile isdecimal s")
  case Nil
  with assms obtain n where "v = rnd (of_nat n)"
    by (auto simp: py_float_def Let_def split: if_splits)
  then show ?thesis by (simp add: rnd_nonneg_le)
next
  case (Cons c fp)
  with assms obtain x y where "v = rnd (of_nat x + of_nat y / 10 ^ length fp)"
    by (auto simp: py_float_def Let_def split: if_splits option.splits)
  then show ?thesis by (simp add: rnd_nonneg_le)
qed

lemma groups_digits:
  assumes "digit_caps c" "c 2 \<noteq> None"
  shows "groups [1, 2] c ! 1 \<noteq> [] \<and> list_all isdecimal (groups [1, 2] c ! 1)"
    and "groups [1, 2, 3] c ! 1 \<noteq> [] \<and> list_all isdecimal (groups [1, 2, 3] c ! 1) \<and>
         list_all isdecimal (groups [1, 2, 3] c ! 2)"
proof -
  from assms obtain d where d: "c 2 = Some d" "d \<noteq> []" "list_all isdecimal d"
    by (auto simp: digit_caps_def)
  from d show "groups [1, 2] c ! 1 \<noteq> [] \<and> list_all isdecimal (groups [1, 2] c ! 1)"
    by (simp add: groups_def)
  have "list_all isdecimal (case c 3 of None \<Rightarrow> [] | Some e \<Rightarrow> e)"
  proof (cases "c 3")
    case None
    then show ?thesis by simp
  next
    case (Some e)
    with assms(1) have "list_all isdecimal e" by (auto simp: digit_caps_def)
    with Some show ?thesis by simp
  qed
  with d show "groups [1, 2, 3] c ! 1 \<noteq> [] \<and> list_all isdecimal (groups [1, 2, 3] c ! 1) \<and>
         list_all isdecimal (groups [1, 2, 3] c ! 2)"
    by (simp add: groups_def)
qed

lemma all_matches_digits:
  assumes "m \<in> set (all_matches t)"
  shows "m ! 1 \<noteq> [] \<and> list_all isdecimal (m ! 1) \<and> (length m = 3 \<longrightarrow> list_all isdecimal (m ! 2))"
proof -
  from assms consider "m \<in> set (findall pattern1 [1, 2] t)"
    | "m \<in> set (findall pattern2 [1, 2, 3] t)" | "m \<in> set (findall pattern3 [1, 2, 3] t)"
    by (auto simp: all_matches_def patterns_def)
  then show ?thesis
  proof cases
    case 1
    from findall_elems[OF 1] obtain s0 s' c where
      c: "(s', c) \<in> set (ms pattern1 s0 Map.empty)" "m = groups [1, 2] c" by blast
    from groups_digits(1)[OF ms_digit_caps[OF patterns_digit_groups(1) digit_caps_empty c(1)]
            ms_sets_group[OF patterns_set_group2(1) c(1)]] findall_length[OF 1]
    show ?thesis unfolding c(2) by simp
  next
    case 2
    from findall_elems[OF 2] obtain s0 s' c where
      c: "(s', c) \<in> set (ms pattern2 s0 Map.empty)" "m = groups [1, 2, 3] c" by blast
    from groups_digits(2)[OF ms_digit_caps[OF patterns_digit_groups(2) digit_caps_empty c(1)]
            ms_sets_group[OF patterns_set_group2(2) c(1)]]
    show ?thesis unfolding c(2) by simp
  next
    case 3
    from findall_elems[OF 3] obtain s0 s' c where
      c: "(s', c) \<in> set (ms pattern3 s0 Map.empty)" "m = groups [1, 2, 3] c" by blast
    from groups_digits(2)[OF ms_digit_caps[OF patterns_digit_groups(3) digit_caps_empty c(1)]
            ms_sets_group[OF patterns_set_group2(3) c(1)]]
    show ?thesis unfolding c(2) by simp
  qed
qed

lemma reading_of_average:
  assumes "reading_of m = Inr v"
  shows "if length m = 3 \<and> m ! 2 \<noteq> []
         then average_rainfall v = fdiv (fadd (min_rainfall v) (max_rainfall v)) 2
         else average_rainfall v = min_rainfall v \<and> min_rainfall v = max_rainfall v"
  using assms
  by (induction m rule: reading_of.induct) (auto split: option.splits if_splits)

lemma reading_of_bounds:
  assumes "reading_of m = Inr v"
  shows "py_float (m ! 1) = Some (min_rainfall v) \<and>
         (if length m = 3 \<and> m ! 2 \<noteq> [] then py_float (m ! 2) = Some (max_rainfall v)
          else max_rainfall v = min_rainfall v)"
  using assms
  by (induction m rule: reading_of.induct) (auto split: option.splits if_splits)

lemma py_float_whole:
  assumes "d \<noteq> []" "list_all isdecimal d" "py_float d = Some x"
  shows "whole x"
proof -
  from py_float_digits_rnd[OF assms(1,2)] obtain n where "py_float d = Some (rnd (of_nat n))" ..
  with assms(3) have "x = rnd (of_nat n)" by simp
  then show ?thesis by (simp only: whole_rnd_nat)
qed

lemma reading_whole:
  assumes "m \<in> set (all_matches t)" "reading_of m = Inr v"
  shows "whole (min_rainfall v) \<and> whole (max_rainfall v)"
proof -
  note d = all_matches_digits[OF assms(1)]
  note b = reading_of_bounds[OF assms(2)]
  from d b have lo: "whole (min_rainfall v)" by (auto intro: py_float_whole)
  show ?thesis
  proof (cases "length m = 3 \<and> m ! 2 \<noteq> []")
    case True
    with b have "py_float (m ! 2) = Some (max_rainfall v)" by simp
    moreover from True d have "m ! 2 \<noteq> []" "list_all isdecimal (m ! 2)" by simp_all
    ultimately have "whole (max_rainfall v)" by (auto intro: py_float_whole)
    with lo show ?thesis by simp
  next
    case False
    with b have "max_rainfall v = min_rainfall v" by simp
    with lo show ?thesis by simp
  qed
qed

text \<open>The average of a range of two whole numbers below \<open>2 ^ 53\<close> is exact.\<close>

lemma exact_midpoint:
  assumes "whole (Finite a)" "whole (Finite b)" "a + b < 2 ^ 53"
  shows "fdiv (fadd (Finite a) (Finite b)) 2 = Finite ((a + b) / 2)"
proof -
  from whole_cases[OF assms(1)] obtain ka where ka: "a = of_nat ka" by auto
  from whole_cases[OF assms(2)] obtain kb where kb: "b = of_nat kb" by auto
  from assms(3) ka kb have "(of_nat (ka + kb) :: rat) < of_nat (2 ^ 53)" by simp
  hence small: "ka + kb < 2 ^ 53" by (simp only: of_nat_less_iff)
  have ab: "a + b = of_nat (ka + kb)" by (simp add: ka kb)
  have "fadd (Finite a) (Finite b) = rnd (of_nat (ka + kb))" by (simp only: fadd.simps ab)
  also have "\<dots> = Finite (of_nat (ka + kb))" by (rule rnd_small_nat[OF small])
  finally have "fdiv (fadd (Finite a) (Finite b)) 2 = rnd (of_nat (ka + kb) / 2)" by simp
  also have "\<dots> = Finite (of_nat (ka + kb) / 2)" by (rule rnd_small_half[OF small])
  finally show ?thesis by (simp only: ab)
qed

lemma whole_zero_or_one: "whole x \<Longrightarrow> x = Finite 0 \<or> at_least 1 x"
proof -
  assume "whole x"
  from whole_cases[OF this] show ?thesis
  proof
    assume "x = PlusInf" then show ?thesis by simp
  next
    assume "\<exists>k. x = Finite (of_nat k)"
    then obtain k where "x = Finite (of_nat k)" ..
    then show ?thesis by (cases k) simp_all
  qed
qed

lemma half_zero_or_half:
  assumes "x = Finite 0 \<or> at_least 1 x"
  shows "fdiv x 2 = Finite 0 \<or> at_least (1 / 2) (fdiv x 2)"
proof (cases x)
  case (Finite c)
  with assms have "c = 0 \<or> 1 \<le> c" by simp
  then show ?thesis
  proof
    assume "c = 0" with Finite show ?thesis by (simp add: rnd_0)
  next
    assume "1 \<le> c"
    hence "1 / 2 \<le> c / 2" by simp
    from rnd_at_least_half[OF this] Finite show ?thesis by simp
  qed
next
  case PlusInf then show ?thesis by simp
next
  case MinusInf with assms show ?thesis by simp
next
  case NaN with assms show ?thesis by simp
qed

lemma fadd_whole:
  assumes "whole a" "whole b"
  shows "whole (fadd a b)"
proof -
  from whole_cases[OF assms(1)] whole_cases[OF assms(2)]
  consider "a = PlusInf" | "b = PlusInf" | ka kb where "a = Finite (of_nat ka)" "b = Finite (of_nat kb)"
    by blast
  then show ?thesis
  proof cases
    case 1
    with assms(2) show ?thesis by (cases b) simp_all
  next
    case 2
    with assms(1) show ?thesis by (cases a) simp_all
  next
    case 3
    have "(of_nat ka :: rat) + of_nat kb = of_nat (ka + kb)" by simp
    hence "fadd a b = rnd (of_nat (ka + kb))" by (simp only: 3 fadd.simps)
    then show ?thesis by (simp only: whole_rnd_nat)
  qed
qed

lemma reading_average_zero_or_half:
  assumes "m \<in> set (all_matches t)" "reading_of m = Inr v"
  shows "average_rainfall v = Finite 0 \<or> at_least (1 / 2) (average_rainfall v)"
proof -
  from reading_whole[OF assms] have w: "whole (min_rainfall v)" "whole (max_rainfall v)"
    by simp_all
  show ?thesis
  proof (cases "length m = 3 \<and> m ! 2 \<noteq> []")
    case True
    with reading_of_average[OF assms(2)]
    have a: "average_rainfall v = fdiv (fadd (min_rainfall v) (max_rainfall v)) 2" by simp
    from whole_zero_or_one[OF fadd_whole[OF w]] show ?thesis
      unfolding a by (rule half_zero_or_half)
  next
    case False
    with reading_of_average[OF assms(2)] have a: "average_rainfall v = min_rainfall v" by simp
    from whole_zero_or_one[OF w(1)] show ?thesis
    proof
      assume "min_rainfall v = Finite 0" with a show ?thesis by simp
    next
      assume "at_least 1 (min_rainfall v)"
      then have "at_least (1 / 2) (min_rainfall v)" by (cases "min_rainfall v") auto
      with a show ?thesis by simp
    qed
  qed
qed

text \<open>An average below \<open>2 ^ 52\<close> is a whole number of halves.\<close>

lemma reading_average_halves:
  assumes "m \<in> set (all_matches t)" "reading_of m = Inr v"
    and "average_rainfall v = Finite a" "a < 2 ^ 52"
  shows "\<exists>h. a = of_nat h / 2"
proof -
  from reading_whole[OF assms(1,2)] have w: "whole (min_rainfall v)" "whole (max_rainfall v)"
    by simp_all
  show ?thesis
  proof (cases "length m = 3 \<and> m ! 2 \<noteq> []")
    case True
    with reading_of_average[OF assms(2)]
    have a: "average_rainfall v = fdiv (fadd (min_rainfall v) (max_rainfall v)) 2" by simp
    from whole_cases[OF fadd_whole[OF w]] show ?thesis
    proof
      assume "fadd (min_rainfall v) (max_rainfall v) = PlusInf"
      with a assms(3) show ?thesis by simp
    next
      assume "\<exists>k. fadd (min_rainfall v) (max_rainfall v) = Finite (of_nat k)"
      then obtain k where k: "fadd (min_rainfall v) (max_rainfall v) = Finite (of_nat k)" ..
      with a assms(3) have r: "rnd (of_nat k / 2) = Finite a" by simp
      show ?thesis
      proof (cases "k < 2 ^ 53")
        case True
        from rnd_small_half[OF True] r have "a = of_nat k / 2" by simp
        then show ?thesis ..
      next
        case False
        hence "(2::nat) ^ 53 \<le> k" by simp
        hence "(of_nat (2 ^ 53) :: rat) \<le> of_nat k" by (simp only: of_nat_le_iff)
        hence "(2::rat) ^ 52 \<le> of_nat k / 2" by simp
        from rnd_at_least_2_52[OF this] r have "2 ^ 52 \<le> a" by simp
        with assms(4) show ?thesis by simp
      qed
    qed
  next
    case False
    with reading_of_average[OF assms(2)] have a: "average_rainfall v = min_rainfall v" by simp
    from whole_cases[OF w(1)] a assms(3) obtain k where "a = of_nat k" by auto
    hence "a = of_nat (2 * k) / 2" by simp
    then show ?thesis ..
  qed
qed

subsection \<open>The concrete pages, evaluated\<close>

lemma example_report:
  "fetch_rainfall_data now (Ok example_text) =
     Data \<lparr>rainfall_timestamp = now,
           regions =
             [([20013, 35199, 21312],
               \<lparr>min_rainfall = Finite 1, max_rainfall = Finite 1, average_rainfall = Finite 1\<rparr>),
              ([35199, 36002],
               \<lparr>min_rainfall = Finite 0, max_rainfall = Finite 5,
                average_rainfall = Finite (5 / 2)\<rparr>)],
           total_regions = 2,
           overall_average_rainfall = Finite (7 / 4)\<rparr>"
  by (simp add: example_text_def regex_eval rain_eval)

lemma dry_report_eval: "fetch_rainfall_data t0 (Ok dry_text) = Data dry_report"
  by (simp add: dry_text_def dry_report_def regex_eval rain_eval)

lemma descending_report_eval: "fetch_rainfall_data t0 (Ok descending_text) = Data descending_report"
  by (simp add: descending_text_def descending_report_def regex_eval rain_eval)

lemma priority_report_eval: "fetch_rainfall_data t0 (Ok priority_text) = Data priority_report"
  by (simp add: priority_text_def priority_report_def regex_eval rain_eval)

lemma wide_report_eval: "fetch_rainfall_data t0 (Ok wide_text) = Data wide_report"
  by (simp add: wide_text_def wide_report_def regex_eval rain_eval)

lemma thirds_report_eval: "fetch_rainfall_data t0 (Ok thirds_text) = Data thirds_report"
  by (simp add: thirds_text_def thirds_report_def regex_eval rain_eval rnd_four_thirds)

lemma priority_matches:
  "all_matches priority_text =
     [[[20013, 35199, 21312], [49]], [[20013, 35199, 21312], [50], [52]]]"
  by (simp add: all_matches_def patterns_def priority_text_def regex_eval)

lemma example_matches:
  "all_matches example_text = [[[20013, 35199, 21312], [49]], [[35199, 36002], [48], [53]]]"
  by (simp add: all_matches_def patterns_def example_text_def regex_eval)

lemma wide_matches:
  "all_matches wide_text =
     [[[35199, 36002], [57, 48, 48, 55, 49, 57, 57, 50, 53, 52, 55, 52, 48, 57, 57, 50], [49]]]"
  by (simp add: all_matches_def patterns_def wide_text_def regex_eval)

subsection \<open>The report\<close>

lemma fetch_rainfall_data_Ok:
  assumes "fetch_rainfall_data now resp = Data r"
  obtains t where "resp = Ok t"
  using assms by (cases resp) (auto simp: fetch_rainfall_data_def)

lemma fetch_rainfall_data_average:
  assumes "fetch_rainfall_data now (Ok t) = Data r"
  shows "if regions r = [] then overall_average_rainfall r = 0 \<and> total_regions r = 0
         else total_regions r = length (regions r) \<and>
              truediv_int (py_sum (map (\<lambda>(k, v). average_rainfall v) (regions r)))
                (length (regions r)) = Inr (overall_average_rainfall r)"
  using assms by (auto simp: fetch_rainfall_data_def split: sum.splits if_splits)

lemma regions_origin:
  assumes "fetch_rainfall_data now (Ok t) = Data r" "(k, v) \<in> set (regions r)"
  shows "\<exists>m\<in>set (all_matches t). k = strip (hd m) \<and> reading_of m = Inr v"
  using apply_patterns_origin[OF fetch_rainfall_data_regions[OF assms(1)] assms(2)]
  by (auto simp: all_matches_def)

lemma regions_nonneg:
  assumes "fetch_rainfall_data now (Ok t) = Data r" "(k, v) \<in> set (regions r)"
  shows "0 \<le> min_rainfall v \<and> 0 \<le> max_rainfall v"
proof -
  from regions_origin[OF assms] obtain m where m: "reading_of m = Inr v" by blast
  note b = reading_of_bounds[OF m]
  from b have lo: "0 \<le> min_rainfall v" by (auto intro: py_float_nonneg)
  show ?thesis
  proof (cases "length m = 3 \<and> m ! 2 \<noteq> []")
    case True
    with b have "py_float (m ! 2) = Some (max_rainfall v)" by simp
    from py_float_nonneg[OF this] lo show ?thesis by simp
  next
    case False
    with b lo show ?thesis by simp
  qed
qed

lemma regions_zero_or_half:
  assumes "fetch_rainfall_data now (Ok t) = Data r" "(k, v) \<in> set (regions r)"
  shows "average_rainfall v = Finite 0 \<or> at_least (1 / 2) (average_rainfall v)"
proof -
  from regions_origin[OF assms] obtain m where
    "m \<in> set (all_matches t)" "reading_of m = Inr v" by blast
  then show ?thesis by (rule reading_average_zero_or_half)
qed

lemma regions_halves:
  assumes "fetch_rainfall_data now (Ok t) = Data r" "(k, v) \<in> set (regions r)"
    and "average_rainfall v = Finite a" "a < 2 ^ 52"
  shows "\<exists>h. a = of_nat h / 2"
proof -
  from regions_origin[OF assms(1,2)] obtain m where
    "m \<in> set (all_matches t)" "reading_of m = Inr v" by blast
  then show ?thesis using assms(3,4) by (rule reading_average_halves)
qed

lemma exact_mean:
  assumes ok: "fetch_rainfall_data now (Ok t) = Data r"
    and n: "total_regions r < 2 ^ 53"
    and fin: "\<forall>(k, v)\<in>set (regions r). is_finite (average_rainfall v)"
    and tot: "sum_of_regions (map_of (regions r)) < 2 ^ 52"
  shows "overall_average_rainfall r = rnd (mean_of_regions (map_of (regions r)))"
proof (cases "regions r = []")
  case True
  with fetch_rainfall_data_average[OF ok] show ?thesis
    by (simp add: mean_of_regions_def rnd_0 zero_double_def)
next
  case False
  let ?regs = "regions r"
  let ?avgs = "map (\<lambda>(k, v). average_rainfall v) ?regs"
  let ?exs = "map (\<lambda>(k, v). exact (average_rainfall v)) ?regs"
  have d: "distinct (map fst ?regs)" by (rule regions_distinct[OF ok])
  have sum_eq: "sum_of_regions (map_of ?regs) = sum_list ?exs"
    unfolding sum_of_regions_def
    by (rule sum_list_map_of[OF d, of "\<lambda>v. exact (average_rainfall v)", symmetric])
  have nonneg: "\<forall>x\<in>set ?exs. 0 \<le> x"
  proof
    fix x assume "x \<in> set ?exs"
    then obtain k v where kv: "(k, v) \<in> set ?regs" and x: "x = exact (average_rainfall v)"
      by auto
    from regions_zero_or_half[OF ok kv] x show "0 \<le> x"
      by (cases "average_rainfall v") auto
  qed
  have halves: "\<forall>y\<in>set ?avgs. \<exists>h. y = Finite (of_nat h / 2)"
  proof
    fix y assume "y \<in> set ?avgs"
    then obtain k v where kv: "(k, v) \<in> set ?regs" and y: "y = average_rainfall v"
      by auto
    from fin kv obtain a where a: "average_rainfall v = Finite a"
      by (cases "average_rainfall v") auto
    from kv a have "a \<in> set ?exs" by force
    from member_le_sum_list_rat[OF nonneg this] tot sum_eq have "a < 2 ^ 52" by simp
    from regions_halves[OF ok kv a this] obtain h where "a = of_nat h / 2" ..
    with a y show "\<exists>h. y = Finite (of_nat h / 2)" by blast
  qed
  then obtain hs where hs: "?avgs = map (\<lambda>h. Finite (of_nat h / 2)) hs"
    unfolding ex_map_conv [symmetric] ..
  have "?exs = map exact ?avgs" by (simp add: comp_def case_prod_unfold)
  also have "\<dots> = map (\<lambda>h. of_nat h / 2) hs" unfolding hs by (simp add: comp_def)
  finally have exs: "?exs = map (\<lambda>h. of_nat h / 2) hs" .
  have "sum_list (map (\<lambda>h. (of_nat h :: rat) / 2) hs) = of_nat (sum_list hs) / 2"
    by (induction hs) (simp_all add: add_divide_distrib)
  with exs have total: "sum_list ?exs = of_nat (sum_list hs) / 2" by simp
  with tot sum_eq have "(of_nat (sum_list hs) :: rat) < of_nat (2 ^ 53)" by simp
  hence small: "sum_list hs < 2 ^ 53" by (simp only: of_nat_less_iff)
  have sum: "py_sum ?avgs = Finite (of_nat (sum_list hs) / 2)"
    unfolding hs by (rule py_sum_halves[OF small])
  from False fetch_rainfall_data_average[OF ok]
  have len: "total_regions r = length ?regs"
    and q: "truediv_int (py_sum ?avgs) (length ?regs) = Inr (overall_average_rainfall r)"
    by simp_all
  from n len have "length ?regs < 2 ^ 53" by simp
  from rnd_small_nat[OF this] q False
  have avg: "overall_average_rainfall r = rnd (of_nat (sum_list hs) / 2 / of_nat (length ?regs))"
    by (simp add: truediv_int_def sum)
  from False have "dom (map_of ?regs) \<noteq> {}" by (cases ?regs) auto
  hence "mean_of_regions (map_of ?regs) = of_nat (sum_list hs) / 2 / of_nat (length ?regs)"
    by (simp add: mean_of_regions_def sum_eq total card_dom_map_of[OF d])
  with avg show ?thesis by simp
qed

text \<open>
  Claim C3, as amended. For every report that \<open>fetch_rainfall_data\<close> returns: the
  report-level average is 0 when the mapping is empty. It is 0 exactly when every region's
  average is 0, which an empty mapping satisfies and a mapping of dry regions satisfies as
  well. When there are fewer than \<open>2 ^ 53\<close> regions and their averages are finite and
  add up to less than \<open>2 ^ 52\<close>, no addition rounds, and the report-level average is
  the arithmetic mean of the regions' averages, every region with the same weight, rounded
  once to the nearest float.
\<close>

theorem report_average_is_mean:
  assumes "fetch_rainfall_data now resp = Data r"
  shows "(regions r = [] \<longrightarrow> overall_average_rainfall r = 0) \<and>
         (overall_average_rainfall r = 0 \<longleftrightarrow>
            (\<forall>(k, v)\<in>set (regions r). average_rainfall v = 0)) \<and>
         (total_regions r < 2 ^ 53 \<and>
          (\<forall>(k, v)\<in>set (regions r). is_finite (average_rainfall v)) \<and>
          sum_of_regions (map_of (regions r)) < 2 ^ 52 \<longrightarrow>
            overall_average_rainfall r = rnd (mean_of_regions (map_of (regions r))))"
proof -
  from assms obtain t where ok: "fetch_rainfall_data now (Ok t) = Data r"
    by (auto elim: fetch_rainfall_data_Ok)
  let ?avgs = "map (\<lambda>(k, v). average_rainfall v) (regions r)"
  note avg = fetch_rainfall_data_average[OF ok]
  have empty: "regions r = [] \<longrightarrow> overall_average_rainfall r = 0"
    using avg by simp
  have good: "\<forall>x\<in>set ?avgs. x = Finite 0 \<or> at_least (1 / 2) x"
    using regions_zero_or_half[OF ok] by auto
  have zero: "overall_average_rainfall r = 0 \<longleftrightarrow>
      (\<forall>(k, v)\<in>set (regions r). average_rainfall v = 0)"
  proof (cases "regions r = []")
    case True
    with avg show ?thesis by simp
  next
    case False
    with avg have q: "truediv_int (py_sum ?avgs) (length (regions r)) =
        Inr (overall_average_rainfall r)" by simp
    from py_sum_zero_or_half[OF good]
    have s: "py_sum ?avgs = Finite 0 \<longleftrightarrow> (\<forall>x\<in>set ?avgs. x = Finite 0)"
      and g: "py_sum ?avgs = Finite 0 \<or> at_least (1 / 2) (py_sum ?avgs)" by blast+
    from truediv_int_zero_iff[OF q g] s show ?thesis
      by (auto simp: zero_double_def)
  qed
  have mean: "total_regions r < 2 ^ 53 \<and>
      (\<forall>(k, v)\<in>set (regions r). is_finite (average_rainfall v)) \<and>
      sum_of_regions (map_of (regions r)) < 2 ^ 52 \<longrightarrow>
        overall_average_rainfall r = rnd (mean_of_regions (map_of (regions r)))"
    using exact_mean[OF ok] by blast
  from empty zero mean show ?thesis by blast
qed

lemma example_mean: "mean_of_regions (map_of (regions example_report)) = 7 / 4"
proof -
  have "dom (map_of (regions example_report)) = {[20013, 35199, 21312], [35199, 36002]}"
    by (auto simp: example_report_def split: if_splits)
  then show ?thesis
    by (simp add: mean_of_regions_def sum_of_regions_def example_report_def)
qed

text \<open>The theorem at the page of the example: the mean of 1 and 2.5.\<close>

theorem report_average_is_mean_witness:
  "fetch_rainfall_data t0 (Ok example_text) = Data example_report \<and>
   mean_of_regions (map_of (regions example_report)) = 7 / 4 \<and>
   overall_average_rainfall example_report = rnd (7 / 4) \<and>
   rnd (7 / 4) = Finite (7 / 4)"
proof -
  have h: "fetch_rainfall_data t0 (Ok example_text) = Data example_report"
    by (simp add: example_report example_report_def)
  have n: "total_regions example_report < 2 ^ 53"
    by (simp add: example_report_def)
  have f: "\<forall>(k, v)\<in>set (regions example_report). is_finite (average_rainfall v)"
    by (simp add: example_report_def)
  have s: "sum_of_regions (map_of (regions example_report)) < 2 ^ 52"
    using example_mean by (simp add: mean_of_regions_def example_report_def split: if_splits)
  from report_average_is_mean[OF h] n f s
  have "overall_average_rainfall example_report =
          rnd (mean_of_regions (map_of (regions example_report)))" by blast
  hence o: "overall_average_rainfall example_report = rnd (7 / 4)"
    by (simp only: example_mean)
  have e: "rnd (7 / 4) = Finite (7 / 4)" by (simp add: float_eval)
  from h example_mean o e show ?thesis by (intro conjI)
qed

text \<open>
  Claim C3 as stated fails: the page with one region at 0 mm gives a report whose average
  is 0 and whose mapping is not empty.
\<close>

theorem report_average_zero_counterexample:
  "fetch_rainfall_data t0 (Ok dry_text) = Data dry_report \<and>
   \<not> (overall_average_rainfall dry_report = 0 \<longleftrightarrow> regions dry_report = [])"
  using dry_report_eval by (simp add: dry_report_def zero_double_def)

text \<open>
  The mean itself need not be a float: three regions with 1 mm, 1 mm and 2 mm have the mean
  \<open>4 / 3\<close>, and the report holds the float nearest to it.
\<close>

lemma report_average_rounds:
  "fetch_rainfall_data t0 (Ok thirds_text) = Data thirds_report \<and>
   mean_of_regions (map_of (regions thirds_report)) = 4 / 3 \<and>
   overall_average_rainfall thirds_report = rnd (4 / 3) \<and>
   rnd (4 / 3) = Finite (6004799503160661 / 4503599627370496) \<and>
   Finite (6004799503160661 / 4503599627370496) \<noteq> Finite (4 / 3)"
proof -
  have "dom (map_of (regions thirds_report)) =
      {[20013, 35199, 21312], [26481, 21312], [21335, 21312]}"
    by (auto simp: thirds_report_def split: if_splits)
  then have "mean_of_regions (map_of (regions thirds_report)) = 4 / 3"
    by (simp add: mean_of_regions_def sum_of_regions_def thirds_report_def)
  moreover have "overall_average_rainfall thirds_report = rnd (4 / 3)"
    by (simp add: thirds_report_def rnd_four_thirds)
  ultimately show ?thesis
    using thirds_report_eval by (simp add: rnd_four_thirds)
qed

subsection \<open>The readings\<close>

text \<open>
  Claim C4, as amended. For every page text, every reading of the report is the reading
  built from one of the matches, under that match's stripped region name. When the match
  has a single value, average, minimum and maximum are equal. When it has two bounds (a
  tuple of three with a non-empty third group) the reading's average is
  \<open>(min + max) / 2\<close> as floating point evaluates it, the sum rounded and then the half;
  it is the number \<open>(min + max) / 2\<close> itself whenever the two bounds add up to less
  than \<open>2 ^ 53\<close>. The page of the example gives exactly the two regions
  U+4E2D U+897F U+5340 (1, 1, 1) and U+897F U+8CA2 (0, 5, 2.5) and the report average 1.75.
\<close>

theorem reading_average_rule:
  "(fetch_rainfall_data now (Ok t) = Data r \<longrightarrow>
      (\<forall>(k, v)\<in>set (regions r).
         \<exists>m\<in>set (all_matches t).
           k = strip (hd m) \<and> reading_of m = Inr v \<and>
           (if length m = 3 \<and> m ! 2 \<noteq> []
            then average_rainfall v = fdiv (fadd (min_rainfall v) (max_rainfall v)) 2 \<and>
                 (\<forall>a b. min_rainfall v = Finite a \<and> max_rainfall v = Finite b \<and>
                        a + b < 2 ^ 53 \<longrightarrow>
                    average_rainfall v = Finite ((a + b) / 2))
            else average_rainfall v = min_rainfall v \<and> min_rainfall v = max_rainfall v))) \<and>
   fetch_rainfall_data now (Ok example_text) =
     Data \<lparr>rainfall_timestamp = now,
           regions =
             [([20013, 35199, 21312],
               \<lparr>min_rainfall = Finite 1, max_rainfall = Finite 1, average_rainfall = Finite 1\<rparr>),
              ([35199, 36002],
               \<lparr>min_rainfall = Finite 0, max_rainfall = Finite 5,
                average_rainfall = Finite (5 / 2)\<rparr>)],
           total_regions = 2,
           overall_average_rainfall = Finite (7 / 4)\<rparr>"
proof (intro conjI impI)
  assume ok: "fetch_rainfall_data now (Ok t) = Data r"
  show "\<forall>(k, v)\<in>set (regions r).
         \<exists>m\<in>set (all_matches t).
           k = strip (hd m) \<and> reading_of m = Inr v \<and>
           (if length m = 3 \<and> m ! 2 \<noteq> []
            then average_rainfall v = fdiv (fadd (min_rainfall v) (max_rainfall v)) 2 \<and>
                 (\<forall>a b. min_rainfall v = Finite a \<and> max_rainfall v = Finite b \<and>
                        a + b < 2 ^ 53 \<longrightarrow>
                    average_rainfall v = Finite ((a + b) / 2))
            else average_rainfall v = min_rainfall v \<and> min_rainfall v = max_rainfall v)"
  proof (clarify)
    fix k v assume "(k, v) \<in> set (regions r)"
    from regions_origin[OF ok this] obtain m where
      m: "m \<in> set (all_matches t)" "k = strip (hd m)" "reading_of m = Inr v" by blast
    note avg = reading_of_average[OF m(3)]
    from reading_whole[OF m(1,3)] have w: "whole (min_rainfall v)" "whole (max_rainfall v)"
      by simp_all
    have "if length m = 3 \<and> m ! 2 \<noteq> []
          then average_rainfall v = fdiv (fadd (min_rainfall v) (max_rainfall v)) 2 \<and>
               (\<forall>a b. min_rainfall v = Finite a \<and> max_rainfall v = Finite b \<and>
                      a + b < 2 ^ 53 \<longrightarrow>
                  average_rainfall v = Finite ((a + b) / 2))
          else average_rainfall v = min_rainfall v \<and> min_rainfall v = max_rainfall v"
    proof (cases "length m = 3 \<and> m ! 2 \<noteq> []")
      case True
      with avg have a: "average_rainfall v = fdiv (fadd (min_rainfall v) (max_rainfall v)) 2"
        by simp
      have "\<forall>a b. min_rainfall v = Finite a \<and> max_rainfall v = Finite b \<and> a + b < 2 ^ 53 \<longrightarrow>
              average_rainfall v = Finite ((a + b) / 2)"
      proof (intro allI impI, elim conjE)
        fix x y assume lo: "min_rainfall v = Finite x" and hi: "max_rainfall v = Finite y"
          and s: "x + y < 2 ^ 53"
        from w lo hi have "whole (Finite x)" "whole (Finite y)" by simp_all
        from exact_midpoint[OF this s] show "average_rainfall v = Finite ((x + y) / 2)"
          by (simp only: a lo hi)
      qed
      with a True show ?thesis by simp
    next
      case False
      with avg have "average_rainfall v = min_rainfall v \<and> min_rainfall v = max_rainfall v"
        by simp
      then show ?thesis by (simp only: False if_False)
    qed
    with m show "\<exists>m\<in>set (all_matches t).
           k = strip (hd m) \<and> reading_of m = Inr v \<and>
           (if length m = 3 \<and> m ! 2 \<noteq> []
            then average_rainfall v = fdiv (fadd (min_rainfall v) (max_rainfall v)) 2 \<and>
                 (\<forall>a b. min_rainfall v = Finite a \<and> max_rainfall v = Finite b \<and>
                        a + b < 2 ^ 53 \<longrightarrow>
                    average_rainfall v = Finite ((a + b) / 2))
            else average_rainfall v = min_rainfall v \<and> min_rainfall v = max_rainfall v)"
      by blast
  qed
next
  show "fetch_rainfall_data now (Ok example_text) =
     Data \<lparr>rainfall_timestamp = now,
           regions =
             [([20013, 35199, 21312],
               \<lparr>min_rainfall = Finite 1, max_rainfall = Finite 1, average_rainfall = Finite 1\<rparr>),
              ([35199, 36002],
               \<lparr>min_rainfall = Finite 0, max_rainfall = Finite 5,
                average_rainfall = Finite (5 / 2)\<rparr>)],
           total_regions = 2,
           overall_average_rainfall = Finite (7 / 4)\<rparr>"
    by (rule example_report)
qed

text \<open>
  The theorem at the page of the example, for the region with the range 0 to 5: its match
  has two bounds, and its average is both the floating-point and the exact half of 0 + 5.
\<close>

theorem reading_average_rule_witness:
  "fetch_rainfall_data t0 (Ok example_text) = Data example_report \<and>
   (\<exists>m\<in>set (all_matches example_text).
      [35199, 36002] = strip (hd m) \<and> length m = 3 \<and> m ! 2 \<noteq> [] \<and>
      reading_of m =
        Inr \<lparr>min_rainfall = Finite 0, max_rainfall = Finite 5, average_rainfall = Finite (5 / 2)\<rparr>) \<and>
   Finite (5 / 2) = fdiv (fadd (Finite 0) (Finite 5)) 2 \<and>
   Finite (5 / 2) = Finite ((0 + 5) / 2)"
proof -
  let ?v = "\<lparr>min_rainfall = Finite 0, max_rainfall = Finite 5, average_rainfall = Finite (5 / 2)\<rparr>"
  have h: "fetch_rainfall_data t0 (Ok example_text) = Data example_report"
    by (simp add: example_report example_report_def)
  have mem: "([35199, 36002], ?v) \<in> set (regions example_report)"
    by (simp add: example_report_def)
  from reading_average_rule[of t0 example_text example_report] h
  have "\<forall>(k, v)\<in>set (regions example_report).
         \<exists>m\<in>set (all_matches example_text).
           k = strip (hd m) \<and> reading_of m = Inr v \<and>
           (if length m = 3 \<and> m ! 2 \<noteq> []
            then average_rainfall v = fdiv (fadd (min_rainfall v) (max_rainfall v)) 2 \<and>
                 (\<forall>a b. min_rainfall v = Finite a \<and> max_rainfall v = Finite b \<and>
                        a + b < 2 ^ 53 \<longrightarrow>
                    average_rainfall v = Finite ((a + b) / 2))
            else average_rainfall v = min_rainfall v \<and> min_rainfall v = max_rainfall v)"
    by blast
  from bspec[OF this mem] obtain m where
    m: "m \<in> set (all_matches example_text)" "[35199, 36002] = strip (hd m)"
      "reading_of m = Inr ?v"
    and r: "if length m = 3 \<and> m ! 2 \<noteq> []
       then average_rainfall ?v = fdiv (fadd (min_rainfall ?v) (max_rainfall ?v)) 2 \<and>
            (\<forall>a b. min_rainfall ?v = Finite a \<and> max_rainfall ?v = Finite b \<and>
                   a + b < 2 ^ 53 \<longrightarrow>
               average_rainfall ?v = Finite ((a + b) / 2))
       else average_rainfall ?v = min_rainfall ?v \<and> min_rainfall ?v = max_rainfall ?v"
    by (auto simp only: prod.case)
  from m(1,2) have m_eq: "m = [[35199, 36002], [48], [53]]"
    by (auto simp: example_matches strip_def isspace_def)
  hence two: "length m = 3" "m ! 2 \<noteq> []" by simp_all
  with r have a: "average_rainfall ?v = fdiv (fadd (min_rainfall ?v) (max_rainfall ?v)) 2"
    and e: "\<forall>a b. min_rainfall ?v = Finite a \<and> max_rainfall ?v = Finite b \<and>
                   a + b < 2 ^ 53 \<longrightarrow>
               average_rainfall ?v = Finite ((a + b) / 2)"
    by simp_all
  from a have a': "Finite (5 / 2) = fdiv (fadd (Finite 0) (Finite 5)) 2"
    by (simp only: reading.select_convs)
  have "(0::rat) + 5 < 2 ^ 53" by simp
  with e have "average_rainfall ?v = Finite ((0 + 5) / 2)" by (simp only: reading.select_convs)
  hence e': "Finite (5 / 2) = Finite ((0 + 5) / 2)" by (simp only: reading.select_convs)
  from m two have ex: "\<exists>m\<in>set (all_matches example_text).
      [35199, 36002] = strip (hd m) \<and> length m = 3 \<and> m ! 2 \<noteq> [] \<and> reading_of m = Inr ?v"
    by blast
  from h ex a' e' show ?thesis by (intro conjI)
qed

text \<open>
  Claim C4 as stated fails: for the range 9007199254740992 to 1 the sum of the two bounds
  is not a float; it rounds to the lower bound, and the average stored is
  4503599627370496, which is not \<open>(min + max) / 2\<close>.
\<close>

theorem reading_average_counterexample:
  "fetch_rainfall_data t0 (Ok wide_text) = Data wide_report \<and>
   regions wide_report =
     [([35199, 36002],
       \<lparr>min_rainfall = Finite 9007199254740992, max_rainfall = Finite 1,
        average_rainfall = Finite 4503599627370496\<rparr>)] \<and>
   all_matches wide_text =
     [[[35199, 36002], [57, 48, 48, 55, 49, 57, 57, 50, 53, 52, 55, 52, 48, 57, 57, 50], [49]]] \<and>
   Finite 4503599627370496 \<noteq> Finite ((9007199254740992 + 1) / 2)"
  using wide_report_eval wide_matches by (simp add: wide_report_def)

subsection \<open>Pattern order\<close>

text \<open>
  Claim C5. The matches are those of the first pattern on the whole text, then those of the
  second, then those of the third. The reading the report holds under a region name is the
  one of the last of these matches with that stripped name: a later pattern overwrites an
  earlier one, wherever the two matches stand in the text.
\<close>

theorem last_match_wins:
  assumes "fetch_rainfall_data now (Ok t) = Data r"
  shows "all_matches t =
           findall pattern1 [1, 2] t @ findall pattern2 [1, 2, 3] t @ findall pattern3 [1, 2, 3] t \<and>
         map_of (regions r) k =
           (case last_match_for k (all_matches t) of
              None \<Rightarrow> None
            | Some m \<Rightarrow> (case reading_of m of Inl e \<Rightarrow> None | Inr v \<Rightarrow> Some v))"
  using regions_lookup[OF assms, of k]
  by (simp add: stored_for_def all_matches_def patterns_def)

text \<open>
  The theorem at a page that gives the same district first as a range (second pattern) and
  then as a single value (first pattern): the range is kept.
\<close>

theorem last_match_wins_witness:
  "fetch_rainfall_data t0 (Ok priority_text) = Data priority_report \<and>
   all_matches priority_text =
     [[[20013, 35199, 21312], [49]], [[20013, 35199, 21312], [50], [52]]] \<and>
   last_match_for [20013, 35199, 21312] (all_matches priority_text) =
     Some [[20013, 35199, 21312], [50], [52]] \<and>
   map_of (regions priority_report) [20013, 35199, 21312] =
     Some \<lparr>min_rainfall = Finite 2, max_rainfall = Finite 4, average_rainfall = Finite 3\<rparr>"
proof -
  have h: "fetch_rainfall_data t0 (Ok priority_text) = Data priority_report"
    by (rule priority_report_eval)
  have l: "last_match_for [20013, 35199, 21312] (all_matches priority_text) =
     Some [[20013, 35199, 21312], [50], [52]]"
    by (simp add: priority_matches last_match_for_def strip_def isspace_def)
  from last_match_wins[OF h, of "[20013, 35199, 21312]"] h l priority_matches
  show ?thesis
    by (simp add: py_float_def isdecimal_def decimal_def decimal_zeros_def float_eval)
qed

subsection \<open>Bounds\<close>

text \<open>
  Claim C9, as amended. Every reading has a minimum and a maximum that are not negative.
  The minimum is the first number of the reading's match; the maximum is the second number
  when the match has two bounds, and equals the minimum otherwise. The two bounds are kept
  in the order of the text, so the maximum is at least the minimum only when the text
  writes the range in ascending order.
\<close>

theorem reading_bounds:
  assumes "fetch_rainfall_data now (Ok t) = Data r" and "(k, v) \<in> set (regions r)"
  shows "0 \<le> min_rainfall v \<and> 0 \<le> max_rainfall v \<and>
         (\<exists>m\<in>set (all_matches t).
            k = strip (hd m) \<and> py_float (m ! 1) = Some (min_rainfall v) \<and>
            (if length m = 3 \<and> m ! 2 \<noteq> [] then py_float (m ! 2) = Some (max_rainfall v)
             else max_rainfall v = min_rainfall v))"
proof -
  from regions_origin[OF assms] obtain m where
    m: "m \<in> set (all_matches t)" "k = strip (hd m)" "reading_of m = Inr v" by blast
  from reading_of_bounds[OF m(3)] m(1,2) regions_nonneg[OF assms]
  show ?thesis by blast
qed

text \<open>The theorem at the page with the range 5 to 0.\<close>

theorem reading_bounds_witness:
  "fetch_rainfall_data t0 (Ok descending_text) = Data descending_report \<and>
   0 \<le> min_rainfall \<lparr>min_rainfall = Finite 5, max_rainfall = Finite 0,
                       average_rainfall = Finite (5 / 2)\<rparr> \<and>
   0 \<le> max_rainfall \<lparr>min_rainfall = Finite 5, max_rainfall = Finite 0,
                       average_rainfall = Finite (5 / 2)\<rparr> \<and>
   (\<exists>m\<in>set (all_matches descending_text).
      [35199, 36002] = strip (hd m) \<and> py_float (m ! 1) = Some (Finite 5) \<and>
      py_float (m ! 2) = Some (Finite 0))"
proof -
  let ?v = "\<lparr>min_rainfall = Finite 5, max_rainfall = Finite 0, average_rainfall = Finite (5 / 2)\<rparr>"
  have h: "fetch_rainfall_data t0 (Ok descending_text) = Data descending_report"
    by (rule descending_report_eval)
  have mem: "([35199, 36002], ?v) \<in> set (regions descending_report)"
    by (simp add: descending_report_def)
  have ms: "all_matches descending_text = [[[35199, 36002], [53], [48]]]"
    by (simp add: all_matches_def patterns_def descending_text_def regex_eval)
  from reading_bounds[OF h mem] h ms show ?thesis
    by (simp add: strip_def isspace_def)
qed

text \<open>
  Claim C9 as stated fails: the range 5 to 0 is stored with minimum 5 and maximum 0.
\<close>

theorem reading_bounds_counterexample:
  "fetch_rainfall_data t0 (Ok descending_text) = Data descending_report \<and>
   regions descending_report =
     [([35199, 36002],
       \<lparr>min_rainfall = Finite 5, max_rainfall = Finite 0, average_rainfall = Finite (5 / 2)\<rparr>)] \<and>
   \<not> (max_rainfall \<lparr>min_rainfall = Finite 5, max_rainfall = Finite 0,
                      average_rainfall = Finite (5 / 2)\<rparr>
        \<ge> min_rainfall \<lparr>min_rainfall = Finite 5, max_rainfall = Finite 0,
                          average_rainfall = Finite (5 / 2)\<rparr>)"
  using descending_report_eval by (simp add: descending_report_def)

subsection \<open>What \<open>float\<close> and \<open>int\<close> do with what the weather patterns capture\<close>

lemma ms_Plus_split:
  assumes "(s', c') \<in> set (ms (Plus k) s c)"
  shows "c' = c \<and> (\<exists>p. s = p @ s' \<and> p \<noteq> [] \<and> list_all (cls_matches k) p)"
proof -
  from assms obtain x xs where s: "s = x # xs" and x: "cls_matches k x"
      and g: "s' \<in> set (greedy k xs)" and c: "c' = c"
    by (cases s) (auto split: if_splits)
  from greedy_split[OF g] obtain p where p: "xs = p @ s'" "list_all (cls_matches k) p" by blast
  from s p x have "s = (x # p) @ s' \<and> x # p \<noteq> [] \<and> list_all (cls_matches k) (x # p)" by simp
  with c show ?thesis by blast
qed

lemma ms_Star_split:
  assumes "(s', c') \<in> set (ms (Star k) s c)"
  shows "c' = c \<and> (\<exists>p. s = p @ s' \<and> list_all (cls_matches k) p)"
proof -
  from assms have g: "s' \<in> set (greedy k s)" and c: "c' = c" by auto
  from greedy_split[OF g] c show ?thesis by blast
qed

lemma ms_Eps_eq: "(s', c') \<in> set (ms Eps s c) \<Longrightarrow> s' = s \<and> c' = c"
  by simp

lemma ms_Lit_eq: "(s', c') \<in> set (ms (Lit l) s c) \<Longrightarrow> s = l @ s' \<and> c' = c"
  by (auto split: if_splits) (metis append_take_drop_id)

lemma ms_dot_cases:
  assumes "(s', c') \<in> set (ms (Opt (Class (OneOf [46]))) s c)"
  shows "c' = c \<and> (s = s' \<or> s = 46 # s')"
  using assms by (cases s) (auto split: if_splits)

lemma not_isdecimal_46: "\<not> isdecimal 46"
  by (simp add: isdecimal_def decimal_def decimal_zeros_def)

lemma re_search_in_ms:
  "re_search r s = Some c \<Longrightarrow> \<exists>s0 s' p. (s', c) \<in> set (ms r s0 Map.empty) \<and> s = p @ s0"
proof (induction s)
  case Nil
  then obtain s' where "match_at r [] = Some (s', c)" by auto
  from match_at_in_ms[OF this] show ?case by blast
next
  case (Cons x xs)
  show ?case
  proof (cases "match_at r (x # xs)")
    case None
    with Cons.prems have "re_search r xs = Some c" by simp
    from Cons.IH[OF this] obtain s0 s' p where
      "(s', c) \<in> set (ms r s0 Map.empty)" "xs = p @ s0" by blast
    then have "(s', c) \<in> set (ms r s0 Map.empty) \<and> x # xs = (x # p) @ s0" by simp
    then show ?thesis by blast
  next
    case (Some q)
    obtain s' c' where q: "q = (s', c')" by (cases q)
    with Some Cons.prems have "c' = c" by simp
    with match_at_in_ms[OF Some[unfolded q]]
    have "(s', c) \<in> set (ms r (x # xs) Map.empty) \<and> x # xs = [] @ (x # xs)" by simp
    then show ?thesis by blast
  qed
qed

lemma humidity_capture:
  assumes "(s', c) \<in> set (ms humidity_pattern s0 Map.empty)"
  shows "\<exists>d. c 1 = Some d \<and> d \<noteq> [] \<and> list_all isdecimal d \<and> length d \<le> length s0"
proof -
  from assms have "(s', c) \<in> set (ms (Seq (Group 1 (Plus Digit)) (Seq (Lit [37]) Eps)) s0 Map.empty)"
    by (simp add: humidity_pattern_def seqs_def)
  then obtain s1 c1 where g: "(s1, c1) \<in> set (ms (Group 1 (Plus Digit)) s0 Map.empty)"
      and r: "(s', c) \<in> set (ms (Seq (Lit [37]) Eps) s1 c1)"
    by (rule ms_Seq_elim)
  from r obtain s2 c2 where "(s2, c2) \<in> set (ms (Lit [37]) s1 c1)" "(s', c) \<in> set (ms Eps s2 c2)"
    by (rule ms_Seq_elim)
  with ms_unchanged(1,3) have cc: "c = c1" by blast
  from g obtain c0 where p: "(s1, c0) \<in> set (ms (Plus Digit) s0 Map.empty)"
      and c1: "c1 = c0(1 \<mapsto> take (length s0 - length s1) s0)"
    by (rule ms_Group_elim)
  from plus_capture[OF p] c1 cc show ?thesis
    by (simp add: cls_matches_Digit)
qed

lemma py_float_fraction:
  assumes "p1 \<noteq> []" "list_all isdecimal p1" "list_all isdecimal p2"
  shows "\<exists>v. py_float (p1 @ 46 # p2) = Some v"
proof -
  from assms(2) have all: "\<forall>x\<in>set p1. isdecimal x" by (simp add: list_all_iff)
  have t: "takeWhile isdecimal (p1 @ 46 # p2) = p1"
    using all by (simp add: takeWhile_append2 not_isdecimal_46)
  have r: "dropWhile isdecimal (p1 @ 46 # p2) = 46 # p2"
    using all by (simp add: dropWhile_append2 not_isdecimal_46)
  from digits_value_Some[OF assms(2), of 0] obtain a where a: "digits_value 0 p1 = Some a" ..
  from digits_value_Some[OF assms(3), of 0] obtain b where b: "digits_value 0 p2 = Some b" ..
  show ?thesis
    unfolding py_float_def Let_def t r using assms(1) a b by simp
qed

lemma temperature_capture:
  assumes "(s', c) \<in> set (ms temperature_pattern s0 Map.empty)"
  shows "\<exists>d v. c 1 = Some d \<and> py_float d = Some v"
proof -
  let ?inner = "Seq (Plus Digit) (Seq (Opt (Class (OneOf [46]))) (Seq (Star Digit) Eps))"
  from assms have "(s', c) \<in> set (ms (Seq (Group 1 ?inner) (Seq (Lit [176, 67]) Eps)) s0 Map.empty)"
    by (simp add: temperature_pattern_def seqs_def)
  then obtain s1 c1 where g: "(s1, c1) \<in> set (ms (Group 1 ?inner) s0 Map.empty)"
      and r: "(s', c) \<in> set (ms (Seq (Lit [176, 67]) Eps) s1 c1)"
    by (rule ms_Seq_elim)
  from r obtain s2 c2 where "(s2, c2) \<in> set (ms (Lit [176, 67]) s1 c1)"
      "(s', c) \<in> set (ms Eps s2 c2)"
    by (rule ms_Seq_elim)
  with ms_unchanged(1,3) have cc: "c = c1" by blast
  from g obtain c0 where i: "(s1, c0) \<in> set (ms ?inner s0 Map.empty)"
      and c1: "c1 = c0(1 \<mapsto> take (length s0 - length s1) s0)"
    by (rule ms_Group_elim)
  from i obtain sa ca where a: "(sa, ca) \<in> set (ms (Plus Digit) s0 Map.empty)"
      and i2: "(s1, c0) \<in> set (ms (Seq (Opt (Class (OneOf [46]))) (Seq (Star Digit) Eps)) sa ca)"
    by (rule ms_Seq_elim)
  from i2 obtain sb cb where b: "(sb, cb) \<in> set (ms (Opt (Class (OneOf [46]))) sa ca)"
      and i3: "(s1, c0) \<in> set (ms (Seq (Star Digit) Eps) sb cb)"
    by (rule ms_Seq_elim)
  from i3 obtain sc cc' where d: "(sc, cc') \<in> set (ms (Star Digit) sb cb)"
      and e: "(s1, c0) \<in> set (ms Eps sc cc')"
    by (rule ms_Seq_elim)
  from ms_Plus_split[OF a] obtain p1 where p1: "s0 = p1 @ sa" "p1 \<noteq> []" "list_all isdecimal p1"
    by (auto simp: cls_matches_Digit)
  from ms_Star_split[OF d] obtain p2 where p2: "sb = p2 @ sc" "list_all isdecimal p2"
    by (auto simp: cls_matches_Digit)
  from ms_Eps_eq[OF e] have s1: "s1 = sc" by simp
  from ms_dot_cases[OF b] consider "sa = sb" | "sa = 46 # sb" by blast
  then show ?thesis
  proof cases
    case 1
    with p1 p2 s1 have "take (length s0 - length s1) s0 = p1 @ p2" by simp
    moreover have "\<exists>v. py_float (p1 @ p2) = Some v"
      using p1(2,3) p2(2) by (intro py_float_digits) simp_all
    ultimately show ?thesis using c1 cc by simp
  next
    case 2
    with p1 p2 s1 have "take (length s0 - length s1) s0 = p1 @ 46 # p2" by simp
    moreover have "\<exists>v. py_float (p1 @ 46 # p2) = Some v"
      by (rule py_float_fraction[OF p1(2,3) p2(2)])
    ultimately show ?thesis using c1 cc by simp
  qed
qed

lemma first_temperature_total: "\<exists>v. first_temperature ts = Inr v"
proof (induction ts)
  case Nil
  then show ?case by simp
next
  case (Cons t ts)
  show ?case
  proof (cases "re_search temperature_pattern t")
    case None
    with Cons show ?thesis by simp
  next
    case (Some c)
    from re_search_in_ms[OF Some] obtain s0 s' where
      "(s', c) \<in> set (ms temperature_pattern s0 Map.empty)" by blast
    from temperature_capture[OF this] obtain d v where "c 1 = Some d" "py_float d = Some v"
      by blast
    with Some show ?thesis by (simp add: group_def)
  qed
qed

lemma py_int_digits:
  assumes "d \<noteq> []" "list_all isdecimal d" "length d \<le> 4300"
  shows "\<exists>n. py_int d = Inr n"
proof -
  from assms(2) have "\<forall>x\<in>set d. isdecimal x" by (simp add: list_all_iff)
  then have t: "takeWhile isdecimal d = d" by simp
  from digits_value_Some[OF assms(2), of 0] obtain n where "digits_value 0 d = Some n" ..
  with assms(1,3) show ?thesis by (simp add: py_int_def t)
qed

lemma first_humidity_total:
  assumes "\<forall>s\<in>set ts. length s \<le> 4300"
  shows "\<exists>v. first_humidity ts = Inr v"
  using assms
proof (induction ts)
  case Nil
  then show ?case by simp
next
  case (Cons t ts)
  show ?case
  proof (cases "re_search humidity_pattern t")
    case None
    with Cons show ?thesis by simp
  next
    case (Some c)
    from re_search_in_ms[OF Some] obtain s0 s' p where
      m: "(s', c) \<in> set (ms humidity_pattern s0 Map.empty)" and t: "t = p @ s0" by blast
    from humidity_capture[OF m] obtain d where
      d: "c 1 = Some d" "d \<noteq> []" "list_all isdecimal d" "length d \<le> length s0"
      by blast
    from Cons.prems t d(4) have "length d \<le> 4300" by simp
    from py_int_digits[OF d(2,3) this] obtain n where "py_int d = Inr n" ..
    with Some d(1) show ?thesis by (simp add: group_def)
  qed
qed

lemma fetch_current_weather_Ok:
  assumes "\<forall>s\<in>set (strings soup). length s \<le> 4300"
  shows "\<exists>wd. fetch_current_weather now (Ok soup) = Data wd"
proof -
  obtain temp where t: "first_temperature
      (filter (\<lambda>t. re_search temperature_pattern t \<noteq> None) (strings soup)) = Inr temp"
    using first_temperature_total by blast
  from assms have "\<forall>s\<in>set (filter (\<lambda>t. re_search humidity_pattern t \<noteq> None) (strings soup)).
      length s \<le> 4300" by simp
  from first_humidity_total[OF this] obtain hum where h: "first_humidity
      (filter (\<lambda>t. re_search humidity_pattern t \<noteq> None) (strings soup)) = Inr hum" ..
  show ?thesis
    by (simp only: fetch_current_weather_def response.case t h sum.case) blast
qed

lemma fetch_current_weather_Raises:
  "fetch_current_weather now (Raises e) = Failure now (RequestFailed e)"
  by (simp add: fetch_current_weather_def)

text \<open>
  The limit of \<open>int\<close> is met by a page: a humidity of 4301 digits is matched by the
  pattern and refused by \<open>int\<close>, and the weather facet is the failure marker although
  the request succeeded.
\<close>

lemma ms_suffix: "(s', c') \<in> set (ms r s c) \<Longrightarrow> \<exists>p. s = p @ s'"
proof (induction r arbitrary: s c s' c')
  case Eps
  then show ?case by simp
next
  case (Class k)
  then show ?case by (cases s) (auto split: if_splits)
next
  case (Lit l)
  from ms_Lit_eq[OF Lit] show ?case by blast
next
  case (Star k)
  from ms_Star_split[OF Star] show ?case by blast
next
  case (Plus k)
  from ms_Plus_split[OF Plus] show ?case by blast
next
  case (Opt r)
  from Opt.prems have "(s', c') \<in> set (ms r s c) \<or> s' = s" by auto
  with Opt.IH show ?case by auto
next
  case (Alt a b)
  from ms_Alt_cases[OF Alt.prems] Alt.IH show ?case by blast
next
  case (Seq a b)
  from Seq.prems obtain s1 c1 where m: "(s1, c1) \<in> set (ms a s c)" "(s', c') \<in> set (ms b s1 c1)"
    by (rule ms_Seq_elim)
  from Seq.IH(1)[OF m(1)] obtain p where p: "s = p @ s1" ..
  from Seq.IH(2)[OF m(2)] obtain q where q: "s1 = q @ s'" ..
  from p q have "s = (p @ q) @ s'" by simp
  then show ?case ..
next
  case (Group n r)
  from Group.prems obtain c1 where "(s', c1) \<in> set (ms r s c)"
    by (rule ms_Group_elim)
  from Group.IH[OF this] show ?case .
qed

lemma temperature_needs_degree:
  assumes "re_search temperature_pattern s = Some c"
  shows "176 \<in> set s"
proof -
  let ?inner = "Seq (Plus Digit) (Seq (Opt (Class (OneOf [46]))) (Seq (Star Digit) Eps))"
  from re_search_in_ms[OF assms] obtain s0 s' p where
    m: "(s', c) \<in> set (ms temperature_pattern s0 Map.empty)" and s: "s = p @ s0" by blast
  from m have "(s', c) \<in> set (ms (Seq (Group 1 ?inner) (Seq (Lit [176, 67]) Eps)) s0 Map.empty)"
    by (simp add: temperature_pattern_def seqs_def)
  then obtain s1 c1 where g: "(s1, c1) \<in> set (ms (Group 1 ?inner) s0 Map.empty)"
      and r: "(s', c) \<in> set (ms (Seq (Lit [176, 67]) Eps) s1 c1)"
    by (rule ms_Seq_elim)
  from r obtain s2 c2 where l: "(s2, c2) \<in> set (ms (Lit [176, 67]) s1 c1)"
    by (rule ms_Seq_elim)
  from ms_Lit_eq[OF l] have "s1 = [176, 67] @ s2" by simp
  moreover from ms_suffix[OF g] obtain q where "s0 = q @ s1" ..
  ultimately show ?thesis using s by simp
qed

lemma greedy_zeros: "\<exists>rest. greedy Digit (replicate n 48 @ [37]) = [37] # rest"
proof (induction n)
  case 0
  then show ?case by (simp add: isdecimal_def decimal_def decimal_zeros_def)
next
  case (Suc n)
  then obtain rest where "greedy Digit (replicate n 48 @ [37]) = [37] # rest" ..
  then show ?case by (simp add: isdecimal_def decimal_def decimal_zeros_def)
qed

lemma humidity_of_zeros:
  "\<exists>c. re_search humidity_pattern (replicate (Suc n) 48 @ [37]) = Some c \<and>
       group c 1 = replicate (Suc n) 48"
proof -
  from greedy_zeros [of n] obtain rest where
    g: "greedy Digit (replicate n 48 @ [37]) = [37] # rest" ..
  have d: "isdecimal 48" by (simp add: isdecimal_def decimal_def decimal_zeros_def)
  have t: "take (Suc n) (replicate n 48 @ [37 :: nat]) = replicate n 48 @ [37]" by simp
  have "\<exists>more. ms humidity_pattern (replicate (Suc n) 48 @ [37]) Map.empty =
          ([], [1 \<mapsto> replicate (Suc n) 48]) # more"
    by (simp add: humidity_pattern_def seqs_def g d)
  then obtain more where "ms humidity_pattern (replicate (Suc n) 48 @ [37]) Map.empty =
      ([], [1 \<mapsto> replicate (Suc n) 48]) # more" ..
  then have "match_at humidity_pattern (replicate (Suc n) 48 @ [37]) =
      Some ([], [1 \<mapsto> replicate (Suc n) 48])"
    by (simp add: match_at_def)
  then have "re_search humidity_pattern (replicate (Suc n) 48 @ [37]) =
      Some [1 \<mapsto> replicate (Suc n) 48]"
    by simp
  then show ?thesis by (simp add: group_def)
qed

lemma py_int_limit: "py_int (replicate 4301 48) = Inl (ValueError int_limit_exceeded)"
proof -
  have "\<forall>x\<in>set (replicate 4301 (48::nat)). isdecimal x"
    by (simp add: isdecimal_def decimal_def decimal_zeros_def)
  then have "takeWhile isdecimal (replicate 4301 48) = replicate 4301 48"
    by (simp only: takeWhile_eq_all_conv)
  then show ?thesis by (simp add: py_int_def)
qed

lemma weather_fails_on_long_humidity:
  "fetch_current_weather now (Ok long_humidity_page) =
     Failure now (ValueError int_limit_exceeded)"
proof -
  let ?s = "replicate 4301 48 @ [37 :: nat]"
  have "176 \<notin> set ?s" by simp
  with temperature_needs_degree [of ?s] have nt: "re_search temperature_pattern ?s = None"
    by (cases "re_search temperature_pattern ?s") auto
  from humidity_of_zeros [of 4300] obtain c where
    c: "re_search humidity_pattern ?s = Some c" "group c 1 = replicate 4301 48"
    by auto
  show ?thesis
    using c(2)
    by (simp add: fetch_current_weather_def long_humidity_page_def nt c(1) py_int_limit)
qed

section \<open>Properties of the warnings and of the snapshot\<close>

lemmas warn_eval = fetch_weather_warnings_def keyword_check_def warn_png_def seqs_def match_at_def
  ascii_def icons_page_def

text \<open>
  Claim C6, evaluated where it fails. Two pages carry the same two icons, thunderstorm and
  strong wind, and no keyword. With the thunderstorm icon first the level is \<open>medium\<close>:
  the branch of the later icon assigns the level again. With the thunderstorm icon last the
  level is \<open>high\<close>. The level depends on the order of detection and is not the maximum
  over the active warnings.
\<close>

theorem warning_level_follows_last_icon:
  "fetch_weather_warnings t0 (Ok (icons_page [ascii ''warn_ts.png'', ascii ''warn_wind.png''])) =
     Data \<lparr>warnings_timestamp = t0,
           active_warnings = [thunderstorm, strong_wind],
           warning_level = medium\<rparr> \<and>
   fetch_weather_warnings t0 (Ok (icons_page [ascii ''warn_wind.png'', ascii ''warn_ts.png''])) =
     Data \<lparr>warnings_timestamp = t0,
           active_warnings = [strong_wind, thunderstorm],
           warning_level = high\<rparr>"
  by (simp add: warn_eval)

lemma fetch_weather_warnings_Ok:
  "\<exists>a. fetch_weather_warnings now (Ok soup) = Data a"
  by (simp add: fetch_weather_warnings_def split: prod.splits)

lemma fetch_weather_warnings_Raises:
  "fetch_weather_warnings now (Raises e) = Failure now (RequestFailed e)"
  by (simp add: fetch_weather_warnings_def)

lemma fetch_rainfall_data_Raises:
  "fetch_rainfall_data now (Raises e) = Failure now (RequestFailed e)"
  by (simp add: fetch_rainfall_data_def)

text \<open>
  Claim C7. When the request for the warnings fails and the one for the rainfall succeeds,
  the snapshot holds a rainfall report and, for the warnings, the failure marker with the
  message of the exception. Each facet of the snapshot is the same whatever the outcomes
  of the other two requests are. The rainfall facet and the warnings facet are failure
  markers exactly when their own request failed. The weather facet is the failure marker
  when its request failed, and it is populated when the request succeeded and no string of
  the page is longer than the 4300 digits \<open>int\<close> accepts. The page text of the rainfall
  request is a \<open>str\<close>, of at most \<open>sys.maxsize\<close> characters.
\<close>

theorem facets_independent:
  "(warnings_response w = Raises e \<and> rainfall_response w = Ok t \<and> length t \<le> maxsize \<longrightarrow>
      (\<exists>r. rainfall_data (fetch_all_data w) = Data r) \<and>
      weather_warnings (fetch_all_data w) = Failure (clock_warnings w) (RequestFailed e)) \<and>
   current_weather (fetch_all_data (w\<lparr>rainfall_response := r', warnings_response := a'\<rparr>)) =
     current_weather (fetch_all_data w) \<and>
   rainfall_data (fetch_all_data (w\<lparr>weather_response := c', warnings_response := a'\<rparr>)) =
     rainfall_data (fetch_all_data w) \<and>
   weather_warnings (fetch_all_data (w\<lparr>weather_response := c', rainfall_response := r'\<rparr>)) =
     weather_warnings (fetch_all_data w) \<and>
   (weather_response w = Raises x \<longrightarrow>
      current_weather (fetch_all_data w) = Failure (clock_weather w) (RequestFailed x)) \<and>
   (weather_response w = Ok soup \<and> (\<forall>s\<in>set (strings soup). length s \<le> 4300) \<longrightarrow>
      (\<exists>wd. current_weather (fetch_all_data w) = Data wd)) \<and>
   ((\<forall>t'. rainfall_response w = Ok t' \<longrightarrow> length t' \<le> maxsize) \<longrightarrow>
      ((\<exists>d y. rainfall_data (fetch_all_data w) = Failure d y) \<longleftrightarrow>
         (\<exists>y. rainfall_response w = Raises y))) \<and>
   ((\<exists>d y. weather_warnings (fetch_all_data w) = Failure d y) \<longleftrightarrow>
      (\<exists>y. warnings_response w = Raises y))"
proof -
  have weather1: "weather_response w = Raises x \<longrightarrow>
      current_weather (fetch_all_data w) = Failure (clock_weather w) (RequestFailed x)"
    by (simp add: fetch_all_data_def fetch_current_weather_Raises)
  have weather2: "weather_response w = Ok soup \<and> (\<forall>s\<in>set (strings soup). length s \<le> 4300) \<longrightarrow>
      (\<exists>wd. current_weather (fetch_all_data w) = Data wd)"
    using fetch_current_weather_Ok[of soup "clock_weather w"]
    by (simp add: fetch_all_data_def)
  have partial: "warnings_response w = Raises e \<and> rainfall_response w = Ok t \<and>
      length t \<le> maxsize \<longrightarrow>
      (\<exists>r. rainfall_data (fetch_all_data w) = Data r) \<and>
      weather_warnings (fetch_all_data w) = Failure (clock_warnings w) (RequestFailed e)"
    using fetch_rainfall_data_total[of t "clock_rainfall w"]
    by (simp add: fetch_all_data_def fetch_weather_warnings_Raises)
  have rain: "(\<forall>t'. rainfall_response w = Ok t' \<longrightarrow> length t' \<le> maxsize) \<longrightarrow>
      ((\<exists>d y. rainfall_data (fetch_all_data w) = Failure d y) \<longleftrightarrow>
         (\<exists>y. rainfall_response w = Raises y))"
  proof (cases "rainfall_response w")
    case (Raises y)
    then show ?thesis by (simp add: fetch_all_data_def fetch_rainfall_data_Raises)
  next
    case (Ok t')
    show ?thesis
    proof
      assume "\<forall>t'. rainfall_response w = Ok t' \<longrightarrow> length t' \<le> maxsize"
      with Ok have "length t' \<le> maxsize" by simp
      from fetch_rainfall_data_total[OF this, of "clock_rainfall w"] Ok
      show "(\<exists>d y. rainfall_data (fetch_all_data w) = Failure d y) \<longleftrightarrow>
         (\<exists>y. rainfall_response w = Raises y)"
        by (auto simp: fetch_all_data_def)
    qed
  qed
  have warn: "(\<exists>d y. weather_warnings (fetch_all_data w) = Failure d y) \<longleftrightarrow>
      (\<exists>y. warnings_response w = Raises y)"
  proof (cases "warnings_response w")
    case (Raises y)
    then show ?thesis by (simp add: fetch_all_data_def fetch_weather_warnings_Raises)
  next
    case (Ok soup')
    with fetch_weather_warnings_Ok[of "clock_warnings w" soup'] show ?thesis
      by (auto simp: fetch_all_data_def)
  qed
  have indep:
    "current_weather (fetch_all_data (w\<lparr>rainfall_response := r', warnings_response := a'\<rparr>)) =
       current_weather (fetch_all_data w)"
    "rainfall_data (fetch_all_data (w\<lparr>weather_response := c', warnings_response := a'\<rparr>)) =
       rainfall_data (fetch_all_data w)"
    "weather_warnings (fetch_all_data (w\<lparr>weather_response := c', rainfall_response := r'\<rparr>)) =
       weather_warnings (fetch_all_data w)"
    by (simp_all add: fetch_all_data_def)
  from partial indep weather1 weather2 rain warn show ?thesis by (intro conjI)
qed

text \<open>The theorem where both requests for the index page time out and the rainfall page is the example.\<close>

theorem facets_independent_witness:
  "warnings_response example_outside = Raises (ascii ''timeout'') \<and>
   rainfall_response example_outside = Ok example_text \<and>
   length example_text \<le> maxsize \<and>
   rainfall_data (fetch_all_data example_outside) = Data example_report \<and>
   weather_warnings (fetch_all_data example_outside) = Failure t0 (RequestFailed (ascii ''timeout'')) \<and>
   current_weather (fetch_all_data example_outside) = Failure t0 (RequestFailed (ascii ''timeout''))"
proof -
  have a: "warnings_response example_outside = Raises (ascii ''timeout'')"
    and b: "rainfall_response example_outside = Ok example_text"
    and c: "clock_warnings example_outside = t0"
    by (simp_all add: example_outside_def)
  have l: "length example_text \<le> maxsize"
    by (simp add: example_text_def maxsize_def)
  have d: "rainfall_data (fetch_all_data example_outside) = Data example_report"
    by (simp add: fetch_all_data_def example_outside_def example_report example_report_def)
  have f: "weather_response example_outside = Raises (ascii ''timeout'')"
    and g: "clock_weather example_outside = t0"
    by (simp_all add: example_outside_def)
  note inst = facets_independent[where w = example_outside and e = "ascii ''timeout''"
      and t = example_text and x = "ascii ''timeout''"]
  from inst a b l
  have "weather_warnings (fetch_all_data example_outside) =
          Failure (clock_warnings example_outside) (RequestFailed (ascii ''timeout''))"
    by blast
  moreover from inst f
  have "current_weather (fetch_all_data example_outside) =
          Failure (clock_weather example_outside) (RequestFailed (ascii ''timeout''))"
    by blast
  ultimately show ?thesis using a b c d l g by simp
qed

section \<open>Properties of the updater\<close>

lemma ascii_eq_iff [simp]: "ascii a = ascii b \<longleftrightarrow> a = b"
proof -
  have "inj (of_char :: char \<Rightarrow> nat)"
    by (rule injI) simp
  then show ?thesis
    by (simp add: ascii_def inj_map_eq_map)
qed

lemma isoformat_t0: "isoformat t0 = ascii ''2024-06-01T12:00:00''"
  by (simp add: isoformat_def t0_def pad2_def pad4_def ascii_def)

lemma fromisoformat_t0: "fromisoformat (isoformat t0) = Some t0"
  by (simp add: isoformat_def t0_def pad2_def pad4_def fromisoformat_def iso_time_def
      valid_datetime_def days_in_month_def)

lemma fetch_and_store_data_unfold:
  "fetch_and_store_data w now s =
     (case minus_24_hours now of
        None \<Rightarrow> s\<lparr>historical_data := historical_data s @ [entry (fetch_time (fetch_all_data w)) (all_data_dict (fetch_all_data w))]\<rparr>
      | Some c \<Rightarrow>
         (case keep_last_24_hours c (historical_data s @ [entry (fetch_time (fetch_all_data w)) (all_data_dict (fetch_all_data w))]) of
            None \<Rightarrow> s\<lparr>historical_data := historical_data s @ [entry (fetch_time (fetch_all_data w)) (all_data_dict (fetch_all_data w))]\<rparr>
          | Some kept \<Rightarrow> save_historical_data (s\<lparr>historical_data := kept\<rparr>)))"
  unfolding fetch_and_store_data_def Let_def entry_def by (rule refl)

lemma fetch_time_fetch_all_data: "fetch_time (fetch_all_data w) = clock_fetch w"
  by (simp add: fetch_all_data_def)

lemma keep_entry:
  "keep_last_24_hours c (entry t v # rest) =
     (case keep_last_24_hours c rest of
        None \<Rightarrow> None
      | Some kept \<Rightarrow> Some (if dt_less c t then entry t v # kept else kept))"
  unfolding entry_def by simp

lemma keep_saved_entry: "keep_last_24_hours c (saved_entry t v # rest) = None"
  by (simp add: saved_entry_def)

lemma serializable_entry: "serializable_item (entry t v) = Some (saved_entry t v)"
  by (simp add: serializable_item_def entry_def saved_entry_def Let_def)

lemma load_saved_entry:
  "load_filter c (saved_entry t v # rest) =
     (case fromisoformat (isoformat t) of
        None \<Rightarrow> None
      | Some t' \<Rightarrow>
          (case load_filter c rest of
             None \<Rightarrow> None
           | Some kept \<Rightarrow> Some (if dt_less c t' then saved_entry t v # kept else kept)))"
  unfolding saved_entry_def by simp

lemma entry_time_simps:
  "entry_time (entry t v) = Some t"
  "entry_time (saved_entry t v) = fromisoformat (isoformat t)"
  by (simp_all add: entry_time_def entry_def saved_entry_def)

lemma digit_step: "10 * (x div 10) + x mod 10 = (x::nat)"
  by simp

lemma div_step: "(n::nat) div (10 * k) = n div k div 10"
  by (simp add: div_mult2_eq mult.commute)

lemma digits2: "n < 100 \<Longrightarrow> 10 * (n div 10 mod 10) + n mod 10 = (n::nat)"
  by simp

lemma digits4:
  assumes "n < 10000"
  shows "10 * (10 * (10 * (n div 1000 mod 10) + n div 100 mod 10) + n div 10 mod 10) + n mod 10 = (n::nat)"
proof -
  have a: "n div 1000 mod 10 = n div 1000" using assms by simp
  have b: "10 * (n div 1000) + n div 100 mod 10 = n div 100"
    using digit_step[of "n div 100"] div_step[of n 100] by simp
  have c: "10 * (n div 100) + n div 10 mod 10 = n div 10"
    using digit_step[of "n div 10"] div_step[of n 10] by simp
  show ?thesis by (simp only: a b c digit_step)
qed

lemma digits6:
  assumes "n < 1000000"
  shows "10 * (10 * (10 * (10 * (10 * (n div 100000 mod 10) + n div 10000 mod 10) +
           n div 1000 mod 10) + n div 100 mod 10) + n div 10 mod 10) + n mod 10 = (n::nat)"
proof -
  have a: "n div 100000 mod 10 = n div 100000" using assms by simp
  have b: "10 * (n div 100000) + n div 10000 mod 10 = n div 10000"
    using digit_step[of "n div 10000"] div_step[of n 10000] by simp
  have c: "10 * (n div 10000) + n div 1000 mod 10 = n div 1000"
    using digit_step[of "n div 1000"] div_step[of n 1000] by simp
  have d: "10 * (n div 1000) + n div 100 mod 10 = n div 100"
    using digit_step[of "n div 100"] div_step[of n 100] by simp
  have e: "10 * (n div 100) + n div 10 mod 10 = n div 10"
    using digit_step[of "n div 10"] div_step[of n 10] by simp
  show ?thesis by (simp only: a b c d e digit_step)
qed

lemma ascii_number_digit:
  "d < 10 \<Longrightarrow> ascii_number acc ((48 + d) # cs) = ascii_number (10 * acc + d) cs"
  by simp

lemma ascii_number2:
  "a < 10 \<Longrightarrow> b < 10 \<Longrightarrow> ascii_number 0 [48 + a, 48 + b] = Some (10 * a + b)"
  by (simp only: ascii_number_digit ascii_number.simps(1)) simp

lemma ascii_number4:
  "a < 10 \<Longrightarrow> b < 10 \<Longrightarrow> c < 10 \<Longrightarrow> d < 10 \<Longrightarrow>
   ascii_number 0 [48 + a, 48 + b, 48 + c, 48 + d] = Some (10 * (10 * (10 * a + b) + c) + d)"
  by (simp only: ascii_number_digit ascii_number.simps(1)) simp

lemma ascii_number6:
  "a < 10 \<Longrightarrow> b < 10 \<Longrightarrow> c < 10 \<Longrightarrow> d < 10 \<Longrightarrow> e < 10 \<Longrightarrow> f < 10 \<Longrightarrow>
   ascii_number 0 [48 + a, 48 + b, 48 + c, 48 + d, 48 + e, 48 + f] =
     Some (10 * (10 * (10 * (10 * (10 * a + b) + c) + d) + e) + f)"
  by (simp only: ascii_number_digit ascii_number.simps(1)) simp

lemma ascii_number_pad2: "n < 100 \<Longrightarrow> ascii_number 0 (pad2 n) = Some n"
proof -
  assume n: "n < 100"
  have "ascii_number 0 (pad2 n) = Some (10 * (n div 10 mod 10) + n mod 10)"
    unfolding pad2_def by (rule ascii_number2) simp_all
  then show ?thesis by (simp only: digits2[OF n])
qed

lemma ascii_number_pad4: "n < 10000 \<Longrightarrow> ascii_number 0 (pad4 n) = Some n"
proof -
  assume n: "n < 10000"
  have "ascii_number 0 (pad4 n) =
      Some (10 * (10 * (10 * (n div 1000 mod 10) + n div 100 mod 10) + n div 10 mod 10) + n mod 10)"
    unfolding pad4_def by (rule ascii_number4) simp_all
  then show ?thesis by (simp only: digits4[OF n])
qed

lemma ascii_number_pad6: "n < 1000000 \<Longrightarrow> ascii_number 0 (pad6 n) = Some n"
proof -
  assume n: "n < 1000000"
  have "ascii_number 0 (pad6 n) =
      Some (10 * (10 * (10 * (10 * (10 * (n div 100000 mod 10) + n div 10000 mod 10) +
           n div 1000 mod 10) + n div 100 mod 10) + n div 10 mod 10) + n mod 10)"
    unfolding pad6_def by (rule ascii_number6) simp_all
  then show ?thesis by (simp only: digits6[OF n])
qed

lemma length_pad [simp]: "length (pad2 n) = 2" "length (pad4 n) = 4" "length (pad6 n) = 6"
  by (simp_all add: pad2_def pad4_def pad6_def)

lemma pad6_not_Nil [simp]: "pad6 n \<noteq> []"
  by (simp add: pad6_def)

lemma fromisoformat_isoformat:
  assumes "valid_datetime d"
  shows "fromisoformat (isoformat d) = Some d"
proof -
  from assms have y: "year d < 10000" and mo: "month d < 100" and dd: "day d < 100"
    and h: "hour d < 100" and mi: "minute d < 100" and se: "second d < 100"
    and us: "microsecond d < 1000000"
    by (auto simp: valid_datetime_def days_in_month_def split: if_splits)
  note nums = ascii_number_pad4[OF y] ascii_number_pad2[OF mo] ascii_number_pad2[OF dd]
    ascii_number_pad2[OF h] ascii_number_pad2[OF mi] ascii_number_pad2[OF se]
    ascii_number_pad6[OF us]
  show ?thesis
  proof (cases "microsecond d = 0")
    case True
    have eq: "\<lparr>year = year d, month = month d, day = day d, hour = hour d,
        minute = minute d, second = second d, microsecond = 0\<rparr> = d"
      using True by (cases d) simp
    show ?thesis
      using True assms nums
      by (simp add: fromisoformat_def iso_time_def iso_fraction_def isoformat_def nth_append
          Let_def eq)
  next
    case False
    have eq: "\<lparr>year = year d, month = month d, day = day d, hour = hour d,
        minute = minute d, second = second d, microsecond = microsecond d\<rparr> = d"
      by (cases d) simp
    show ?thesis
      using False assms nums
      by (simp add: fromisoformat_def iso_time_def iso_fraction_def isoformat_def nth_append
          Let_def eq)
  qed
qed

lemma keep_last_24_hours_sound:
  "keep_last_24_hours c xs = Some kept \<Longrightarrow> x \<in> set kept \<Longrightarrow>
   \<exists>t. entry_time x = Some t \<and> dt_less c t"
proof (induction xs arbitrary: kept)
  case Nil
  then show ?case by simp
next
  case (Cons item rest)
  from Cons.prems(1) obtain kvs t k where item: "item = PDict kvs"
      and ts: "map_of kvs (ascii ''timestamp'') = Some (PDatetime t)"
      and k: "keep_last_24_hours c rest = Some k"
      and kept: "kept = (if dt_less c t then item # k else k)"
    by (auto split: pyval.splits option.splits)
  show ?case
  proof (cases "x \<in> set k")
    case True
    from Cons.IH[OF k True] show ?thesis .
  next
    case False
    with Cons.prems(2) kept have "x = item" "dt_less c t"
      by (auto split: if_splits)
    with item ts show ?thesis by (simp add: entry_time_def)
  qed
qed

lemma load_filter_sound:
  "load_filter c xs = Some kept \<Longrightarrow> x \<in> set kept \<Longrightarrow>
   \<exists>t. entry_time x = Some t \<and> dt_less c t"
proof (induction xs arbitrary: kept)
  case Nil
  then show ?case by simp
next
  case (Cons item rest)
  from Cons.prems(1) obtain kvs ts t k where item: "item = PDict kvs"
      and ts: "map_of kvs (ascii ''timestamp'') = Some (PStr ts)"
      and t: "fromisoformat ts = Some t"
      and k: "load_filter c rest = Some k"
      and kept: "kept = (if dt_less c t then item # k else k)"
    by (auto split: pyval.splits option.splits)
  show ?case
  proof (cases "x \<in> set k")
    case True
    from Cons.IH[OF k True] show ?thesis .
  next
    case False
    with Cons.prems(2) kept have "x = item" "dt_less c t"
      by (auto split: if_splits)
    with item ts t show ?thesis by (simp add: entry_time_def)
  qed
qed

lemma load_filter_string_stamped:
  "load_filter c xs = Some kept \<Longrightarrow> list_all string_stamped kept"
proof (induction xs arbitrary: kept)
  case Nil
  then show ?case by simp
next
  case (Cons item rest)
  from Cons.prems(1) obtain kvs ts t k where item: "item = PDict kvs"
      and ts: "map_of kvs (ascii ''timestamp'') = Some (PStr ts)"
      and k: "load_filter c rest = Some k"
      and kept: "kept = (if dt_less c t then item # k else k)"
    by (auto split: pyval.splits option.splits)
  from Cons.IH[OF k] item ts kept show ?case
    by (simp add: string_stamped_def)
qed

lemma keep_last_24_hours_string_stamped:
  "x \<in> set xs \<Longrightarrow> string_stamped x \<Longrightarrow> keep_last_24_hours c xs = None"
proof (induction xs)
  case Nil
  then show ?case by simp
next
  case (Cons item rest)
  show ?case
  proof (cases "x = item")
    case True
    with Cons.prems(2) show ?thesis
      by (auto simp: string_stamped_def split: pyval.splits option.splits)
  next
    case False
    with Cons have "keep_last_24_hours c rest = None" by simp
    then show ?thesis by (simp split: pyval.splits option.splits)
  qed
qed

lemma json_serializable_convert: "json_serializable (convert_datetimes_to_strings v)"
  by (induction v) (auto simp: list_all_iff)

lemma fetch_and_store_data_string_stamped:
  assumes "x \<in> set (historical_data s)" "string_stamped x"
  shows "fetch_and_store_data w now s =
     s\<lparr>historical_data :=
          historical_data s @ [entry (fetch_time (fetch_all_data w)) (all_data_dict (fetch_all_data w))]\<rparr>"
proof (cases "minus_24_hours now")
  case None
  then show ?thesis by (simp add: fetch_and_store_data_unfold)
next
  case (Some c)
  from assms(1) have "x \<in> set (historical_data s @
      [entry (fetch_time (fetch_all_data w)) (all_data_dict (fetch_all_data w))])"
    by simp
  from keep_last_24_hours_string_stamped[OF this assms(2), of c] Some
  show ?thesis by (simp add: fetch_and_store_data_unfold)
qed

lemma load_historical_data_sound:
  assumes "x \<in> set (load_historical_data now file)"
  shows "\<exists>c t. minus_24_hours now = Some c \<and> entry_time x = Some t \<and> dt_less c t"
proof (cases "file")
  case (Json data)
  show ?thesis
  proof (cases "minus_24_hours now")
    case None
    with Json assms show ?thesis by (simp add: load_historical_data_def)
  next
    case (Some c)
    show ?thesis
    proof (cases "load_filter c data")
      case None
      with Json Some assms show ?thesis by (simp add: load_historical_data_def)
    next
      case k: (Some kept)
      with Json Some assms have "x \<in> set kept" by (simp add: load_historical_data_def)
      from load_filter_sound[OF k this] Some show ?thesis by blast
    qed
  qed
qed (use assms in \<open>simp_all add: load_historical_data_def\<close>)

lemma load_historical_data_string_stamped:
  "list_all string_stamped (load_historical_data now file)"
  by (auto simp: load_historical_data_def load_filter_string_stamped
      split: history_file.splits option.splits)

lemma save_entry:
  "historical_data s = [entry t v] \<Longrightarrow>
   save_historical_data s = s\<lparr>historical_file := Json [saved_entry t v]\<rparr>"
  by (simp add: save_historical_data_def serializable_entry saved_entry_def json_serializable_convert)

lemma valid_t0: "valid_datetime t0"
  by (simp add: valid_datetime_def t0_def days_in_month_def)

lemma cutoffs:
  "minus_24_hours t0 = Some (t0\<lparr>month := 5, day := 31\<rparr>)"
  "minus_24_hours t1 = Some (t1\<lparr>month := 5, day := 31\<rparr>)"
  "minus_24_hours t2 = Some (t2\<lparr>day := 2\<rparr>)"
  by (simp_all add: minus_24_hours_def t0_def t1_def t2_def days_in_month_def)

lemma orders:
  "dt_less (t0\<lparr>month := 5, day := 31\<rparr>) t0"
  "dt_less (t1\<lparr>month := 5, day := 31\<rparr>) t0"
  "dt_less t0 (t2\<lparr>day := 2\<rparr>)"
  by (simp_all add: dt_less_def dt_fields_def t0_def t1_def t2_def)

lemma first_run_eval:
  "first_run =
     \<lparr>historical_data = [entry t0 (all_data_dict (fetch_all_data (unreachable t0)))],
      historical_file = Json [saved_entry t0 (all_data_dict (fetch_all_data (unreachable t0)))],
      is_running = False, update_thread = None, scheduled_jobs = 0, threads_started = 0\<rparr>"
proof -
  have ft: "fetch_time (fetch_all_data (unreachable t0)) = t0"
    by (simp add: fetch_time_fetch_all_data unreachable_def)
  have i: "init t0 Missing =
     \<lparr>historical_data = [], historical_file = Missing, is_running = False,
      update_thread = None, scheduled_jobs = 0, threads_started = 0\<rparr>"
    by (simp add: init_def load_historical_data_def)
  show ?thesis
    unfolding first_run_def i
    by (simp add: fetch_and_store_data_unfold ft cutoffs keep_entry orders save_entry
        del: keep_last_24_hours.simps(2))
qed

lemma restarted_eval:
  "historical_data restarted =
     [saved_entry t0 (all_data_dict (fetch_all_data (unreachable t0)))]"
  unfolding restarted_def first_run_eval
  by (simp add: init_def load_historical_data_def cutoffs load_saved_entry
      fromisoformat_isoformat[OF valid_t0] orders del: load_filter.simps(2))

lemma string_stamped_saved_entry: "string_stamped (saved_entry t v)"
  by (simp add: string_stamped_def saved_entry_def)

lemma save_historical_data_keeps:
  "historical_data (save_historical_data s) = historical_data s"
  "is_running (save_historical_data s) = is_running s"
  "scheduled_jobs (save_historical_data s) = scheduled_jobs s"
  "threads_started (save_historical_data s) = threads_started s"
  "update_thread (save_historical_data s) = update_thread s"
  by (simp_all add: save_historical_data_def split: option.splits)

lemma fetch_and_store_data_keeps:
  "is_running (fetch_and_store_data w now s) = is_running s"
  "scheduled_jobs (fetch_and_store_data w now s) = scheduled_jobs s"
  "threads_started (fetch_and_store_data w now s) = threads_started s"
  "update_thread (fetch_and_store_data w now s) = update_thread s"
  by (simp_all add: fetch_and_store_data_unfold save_historical_data_keeps split: option.splits)

lemma start_effect:
  "is_running (start_background_updates w now s)"
  "\<not> is_running s \<Longrightarrow> scheduled_jobs (start_background_updates w now s) = Suc (scheduled_jobs s)"
  "\<not> is_running s \<Longrightarrow> threads_started (start_background_updates w now s) = Suc (threads_started s)"
  by (simp_all add: start_background_updates_def Let_def fetch_and_store_data_keeps)

lemma repeated_starts_running:
  "is_running s \<Longrightarrow> repeated_starts calls s = s"
  by (induction calls s rule: repeated_starts.induct) (simp_all add: start_background_updates_def)

text \<open>
  Claim C10. A call of \<open>start_background_updates\<close> on a running updater returns the state
  unchanged: no update is run, no job is registered, no thread is started. Any sequence of
  calls therefore has the effect of its first call, and a new updater that is started any
  number of times has registered at most one job and started at most one worker thread.
\<close>

theorem start_twice_is_start_once:
  "(is_running s \<longrightarrow> start_background_updates w now s = s) \<and>
   repeated_starts ((w, now) # calls) s = start_background_updates w now s \<and>
   threads_started (repeated_starts calls (init now0 hf)) \<le> 1 \<and>
   scheduled_jobs (repeated_starts calls (init now0 hf)) \<le> 1"
proof -
  have a: "is_running s \<longrightarrow> start_background_updates w now s = s"
    by (simp add: start_background_updates_def)
  have b: "repeated_starts ((w, now) # calls) s = start_background_updates w now s"
    by (simp add: repeated_starts_running start_effect(1))
  have c: "threads_started (repeated_starts calls (init now0 hf)) \<le> 1 \<and>
      scheduled_jobs (repeated_starts calls (init now0 hf)) \<le> 1"
  proof (cases calls)
    case Nil
    then show ?thesis by (simp add: init_def)
  next
    case (Cons c rest)
    obtain w' now' where "c = (w', now')" by (cases c)
    with Cons have "repeated_starts calls (init now0 hf) =
        start_background_updates w' now' (init now0 hf)"
      by (simp add: repeated_starts_running start_effect(1))
    moreover have "\<not> is_running (init now0 hf)" "threads_started (init now0 hf) = 0"
      "scheduled_jobs (init now0 hf) = 0"
      by (simp_all add: init_def)
    ultimately show ?thesis by (simp add: start_effect)
  qed
  from a b c show ?thesis by blast
qed

text \<open>The theorem at a second call on a new updater.\<close>

theorem start_twice_is_start_once_witness:
  "is_running (start_background_updates (unreachable t0) t0 (init t0 Missing)) \<and>
   second_start = start_background_updates (unreachable t0) t0 (init t0 Missing) \<and>
   threads_started second_start = 1 \<and> scheduled_jobs second_start = 1"
proof -
  let ?s = "start_background_updates (unreachable t0) t0 (init t0 Missing)"
  have r: "is_running ?s" by (rule start_effect(1))
  from start_twice_is_start_once[of ?s "unreachable t2" t2] r
  have e: "second_start = ?s" by (simp add: second_start_def)
  have n: "\<not> is_running (init t0 Missing)" by (simp add: init_def)
  have "threads_started ?s = 1" "scheduled_jobs ?s = 1"
    using start_effect(2,3)[OF n, of "unreachable t0" t0] by (simp_all add: init_def)
  with r e show ?thesis by simp
qed

lemma keep_entries:
  "keep_last_24_hours c (entries tvs) = Some (entries (filter (\<lambda>(t, v). dt_less c t) tvs))"
  by (induction tvs) (auto simp: entries_def keep_entry simp del: keep_last_24_hours.simps(2))

lemma entries_append: "entries tvs @ [entry t v] = entries (tvs @ [(t, v)])"
  by (simp add: entries_def)

lemma serializable_entries: "serializable_data (entries tvs) = Some (saved_entries tvs)"
  by (induction tvs) (auto simp: entries_def saved_entries_def serializable_entry)

lemma json_saved_entries: "list_all json_serializable (saved_entries tvs)"
  by (induction tvs) (auto simp: saved_entries_def saved_entry_def json_serializable_convert)

lemma load_saved_entries:
  assumes "\<forall>(t, v)\<in>set tvs. valid_datetime t"
  shows "load_filter c (saved_entries tvs) =
           Some (saved_entries (filter (\<lambda>(t, v). dt_less c t) tvs))"
  using assms
  by (induction tvs)
     (auto simp: saved_entries_def load_saved_entry fromisoformat_isoformat
        simp del: load_filter.simps(2))

lemma fetch_and_store_data_entries:
  assumes "historical_data s = entries tvs" "minus_24_hours now = Some c"
  shows "fetch_and_store_data w now s =
     s\<lparr>historical_data :=
          entries (filter (\<lambda>(t, v). dt_less c t)
                     (tvs @ [(fetch_time (fetch_all_data w), all_data_dict (fetch_all_data w))])),
        historical_file :=
          Json (saved_entries (filter (\<lambda>(t, v). dt_less c t)
                     (tvs @ [(fetch_time (fetch_all_data w), all_data_dict (fetch_all_data w))])))\<rparr>"
  using assms
  by (simp add: fetch_and_store_data_unfold entries_append keep_entries save_historical_data_def
      serializable_entries json_saved_entries del: filter_append)

lemma entry_time_entries:
  "x \<in> set (entries tvs) \<Longrightarrow> \<exists>t v. (t, v) \<in> set tvs \<and> entry_time x = Some t"
  by (auto simp: entries_def entry_time_simps)

lemma fetch_and_store_data_prunes:
  assumes "historical_data s = entries tvs" "minus_24_hours now = Some c"
    and "x \<in> set (historical_data (fetch_and_store_data w now s))"
  shows "\<exists>t. entry_time x = Some t \<and> dt_less c t"
proof -
  from assms(3) fetch_and_store_data_entries[OF assms(1,2), of w]
  have "x \<in> set (entries (filter (\<lambda>(t, v). dt_less c t)
      (tvs @ [(fetch_time (fetch_all_data w), all_data_dict (fetch_all_data w))])))"
    by simp
  from entry_time_entries[OF this] obtain t v where
    "(t, v) \<in> set (filter (\<lambda>(t, v). dt_less c t)
      (tvs @ [(fetch_time (fetch_all_data w), all_data_dict (fetch_all_data w))]))"
    "entry_time x = Some t" by blast
  then have "entry_time x = Some t" "case (t, v) of (t, v) \<Rightarrow> dt_less c t"
    unfolding set_filter by blast+
  then show ?thesis by simp
qed

lemma save_then_load:
  assumes "historical_data s = entries tvs" "minus_24_hours now = Some c"
    and "\<forall>(t, v)\<in>set tvs. valid_datetime t \<and> dt_less c t"
  shows "load_historical_data now (historical_file (save_historical_data s)) = saved_entries tvs"
    and "map entry_time (load_historical_data now (historical_file (save_historical_data s))) =
         map entry_time (historical_data s)"
proof -
  from assms(3) have v: "\<forall>(t, v)\<in>set tvs. valid_datetime t" by auto
  from assms(3) have f: "filter (\<lambda>(t, v). dt_less c t) tvs = tvs"
    by (auto simp: filter_id_conv)
  have hf: "historical_file (save_historical_data s) = Json (saved_entries tvs)"
    by (simp add: save_historical_data_def assms(1) serializable_entries json_saved_entries)
  show l: "load_historical_data now (historical_file (save_historical_data s)) = saved_entries tvs"
    by (simp add: hf load_historical_data_def assms(2) load_saved_entries[OF v] f)
  have "map entry_time (saved_entries tvs) = map entry_time (entries tvs)"
    using v by (induction tvs)
      (auto simp: saved_entries_def entries_def entry_time_simps fromisoformat_isoformat)
  with l assms(1) show "map entry_time (load_historical_data now (historical_file (save_historical_data s))) =
         map entry_time (historical_data s)"
    by simp
qed

text \<open>
  Claim C1, evaluated where it fails. The second process loads one entry, stamped \<open>t0\<close>,
  and keeps its timestamp as the string of the file. Two days later
  \<open>fetch_and_store_data\<close> appends the new entry; the comparison of the string with the
  cutoff raises, nothing is pruned and nothing is saved. The store then holds the entry of
  \<open>t0\<close>, which is more than a day older than the cutoff of that call. (The lemmas
  \<open>load_historical_data_sound\<close> and \<open>fetch_and_store_data_prunes\<close> above are the parts of
  the claim that hold: load, and append on a history that was never loaded.)
\<close>

theorem stale_entry_survives_append:
  "historical_data restarted =
     [saved_entry t0 (all_data_dict (fetch_all_data (unreachable t0)))] \<and>
   historical_data second_run =
     [saved_entry t0 (all_data_dict (fetch_all_data (unreachable t0))),
      entry t2 (all_data_dict (fetch_all_data (unreachable t2)))] \<and>
   historical_file second_run = historical_file restarted \<and>
   entry_time (saved_entry t0 (all_data_dict (fetch_all_data (unreachable t0)))) = Some t0 \<and>
   minus_24_hours t2 = Some (t2\<lparr>day := 2\<rparr>) \<and>
   dt_less t0 (t2\<lparr>day := 2\<rparr>)"
proof -
  let ?old = "saved_entry t0 (all_data_dict (fetch_all_data (unreachable t0)))"
  have mem: "?old \<in> set (historical_data restarted)"
    by (simp add: restarted_eval)
  have ft: "fetch_time (fetch_all_data (unreachable t2)) = t2"
    by (simp add: fetch_time_fetch_all_data unreachable_def)
  have run: "second_run =
      restarted\<lparr>historical_data := historical_data restarted @
        [entry t2 (all_data_dict (fetch_all_data (unreachable t2)))]\<rparr>"
    unfolding second_run_def
    using fetch_and_store_data_string_stamped[OF mem string_stamped_saved_entry, of "unreachable t2" t2]
    by (simp only: ft)
  have a: "historical_data second_run =
      [?old, entry t2 (all_data_dict (fetch_all_data (unreachable t2)))]"
    by (simp add: run restarted_eval)
  have b: "historical_file second_run = historical_file restarted"
    by (simp add: run)
  have c: "entry_time ?old = Some t0"
    by (simp add: entry_time_simps fromisoformat_isoformat[OF valid_t0])
  from restarted_eval a b c cutoffs(3) orders(3) show ?thesis by simp
qed

text \<open>
  Claim C8, evaluated where it fails. The history of the first process holds one entry with
  a \<open>datetime\<close> timestamp, inside the window. Saving and loading it gives an entry whose
  timestamp is the ISO string: the loaded history is not the saved one. (The lemma
  \<open>save_then_load\<close> above is the part that holds: the loaded entries are the written form
  of the saved ones and carry the same times.)
\<close>

theorem load_returns_string_timestamps:
  "historical_data first_run = [entry t0 (all_data_dict (fetch_all_data (unreachable t0)))] \<and>
   load_historical_data t1 (historical_file (save_historical_data first_run)) =
     [saved_entry t0 (all_data_dict (fetch_all_data (unreachable t0)))] \<and>
   timestamp_of (entry t0 (all_data_dict (fetch_all_data (unreachable t0)))) =
     Some (PDatetime t0) \<and>
   timestamp_of (saved_entry t0 (all_data_dict (fetch_all_data (unreachable t0)))) =
     Some (PStr (ascii ''2024-06-01T12:00:00'')) \<and>
   load_historical_data t1 (historical_file (save_historical_data first_run)) \<noteq>
     historical_data first_run"
proof -
  let ?D = "all_data_dict (fetch_all_data (unreachable t0))"
  have h: "historical_data first_run = [entry t0 ?D]"
    by (simp add: first_run_eval)
  have s: "historical_file (save_historical_data first_run) = Json [saved_entry t0 ?D]"
    by (simp add: save_entry[OF h])
  have l: "load_historical_data t1 (historical_file (save_historical_data first_run)) =
      [saved_entry t0 ?D]"
    unfolding s
    by (simp add: load_historical_data_def cutoffs load_saved_entry
        fromisoformat_isoformat[OF valid_t0] orders del: load_filter.simps(2))
  have t: "timestamp_of (entry t0 ?D) = Some (PDatetime t0)"
    by (simp add: timestamp_of_def entry_def)
  have u: "timestamp_of (saved_entry t0 ?D) = Some (PStr (ascii ''2024-06-01T12:00:00''))"
    by (simp add: timestamp_of_def saved_entry_def isoformat_t0)
  from t u have "saved_entry t0 ?D \<noteq> entry t0 ?D" by auto
  with h l t u show ?thesis by simp
qed

end
